theory Spec2Isabelle
  imports Main "HOL-Library.AList"
begin

section \<open>Halting analysis of a federated quorum network (src/util/HaltingAnalysis.ts)\<close>

subsection \<open>Input data (Types/NetworkTypes)\<close>

text \<open>
  Modelled from the spec: the module \<^verbatim>\<open>../Types/NetworkTypes\<close> that declares
  \<^verbatim>\<open>NetworkGraphNode\<close> and \<^verbatim>\<open>QuorumSet\<close> is imported by the source but is not part of it.
  The fields are the ones the source reads (\<^verbatim>\<open>node\<close>, \<^verbatim>\<open>qset.t\<close>, \<^verbatim>\<open>qset.v\<close>, \<^verbatim>\<open>distance\<close>).
  The array \<^verbatim>\<open>v\<close> is typed \<^verbatim>\<open>string[] | QuorumSet[]\<close> by the guard \<^verbatim>\<open>isNested\<close>; the values
  that can be found in it at run time are strings and quorum sets, so an element is one
  of the two and the array is any list of them. A JavaScript \<^verbatim>\<open>number\<close> that holds a
  threshold or a distance is an integer here.
\<close>

datatype NetworkQuorumSet = NetworkQuorumSet (qset_t: int) (qset_v: "QEntry list")
and QEntry = QName string | QSet NetworkQuorumSet

record NetworkGraphNode =
  node :: string
  qset :: NetworkQuorumSet
  distance :: int

subsection \<open>Analysis data\<close>

datatype AnalysisQuorumSet = AnalysisQuorumSet (threshold: int) (dependencies: "AnalysisDep list")
and AnalysisDep = DepName string | DepSet AnalysisQuorumSet

record AnalysisNode =
  name :: string
  live :: bool
  quorumSet :: AnalysisQuorumSet
  dependentsNames :: "string list"
  networkObject :: NetworkGraphNode

record HaltingFailure =
  vulnerableNodes :: "NetworkGraphNode list"
  affectedNodes :: "NetworkGraphNode list"

text \<open>
  Every \<^verbatim>\<open>throw\<close> of the source, and the \<^verbatim>\<open>TypeError\<close> that JavaScript raises when a
  property of \<^verbatim>\<open>undefined\<close> is read, is an error value.
\<close>

datatype error =
    NoHomeNode
  | BadNetworkGraph string
  | UnsupportedOrder
  | TypeError

text \<open>
  A computation returns \<open>None\<close> when its recursion budget is used up, \<open>Some (Inl e)\<close>
  when the source throws, and \<open>Some (Inr x)\<close> when it returns \<open>x\<close>.
\<close>

type_synonym 'a outcome = "(error + 'a) option"

text \<open>\<^verbatim>\<open>Array.prototype.forEach\<close> with a callback that changes a state and may throw.\<close>

fun forEach :: "('x \<Rightarrow> 's \<Rightarrow> 's outcome) \<Rightarrow> 'x list \<Rightarrow> 's \<Rightarrow> 's outcome" where
  "forEach f [] s = Some (Inr s)"
| "forEach f (x # xs) s =
     (case f x s of
        None \<Rightarrow> None
      | Some (Inl e) \<Rightarrow> Some (Inl e)
      | Some (Inr s') \<Rightarrow> forEach f xs s')"

subsection \<open>Graph construction: \<^verbatim>\<open>createAnalysisStructure\<close>\<close>

text \<open>
  \<^verbatim>\<open>isNested\<close>: \<^verbatim>\<open>typeof set[0] != "string"\<close>. Only the first element is looked at, and
  \<^verbatim>\<open>set[0]\<close> of an empty array is \<^verbatim>\<open>undefined\<close>, which is not a string.
\<close>

fun isNested :: "QEntry list \<Rightarrow> bool" where
  "isNested [] = True"
| "isNested (QName _ # _) = False"
| "isNested (QSet _ # _) = True"

text \<open>
  \<^verbatim>\<open>n.node == dependentName\<close>: when \<^verbatim>\<open>dependentName\<close> is not a string but a quorum set object,
  the loose comparison and the concatenation of the error message both convert it to the
  string \<^verbatim>\<open>[object Object]\<close>.
\<close>

fun toString :: "QEntry \<Rightarrow> string" where
  "toString (QName s) = s"
| "toString (QSet _) = ''[object Object]''"

text \<open>
  The \<^verbatim>\<open>AnalysisNode\<close> objects live in a store: an object is its address, the store is
  the list of the objects allocated so far, and \<^verbatim>\<open>entryCache\<close> is an association list
  from names to addresses in insertion order (a JavaScript \<^verbatim>\<open>Map\<close> keeps it; \<open>AList.update\<close>
  overwrites a key in place and appends a new one).
\<close>

type_synonym store = "AnalysisNode list"
type_synonym entryCache = "(string \<times> nat) list"

definition pushDependency :: "nat \<Rightarrow> AnalysisDep \<Rightarrow> store \<Rightarrow> store" where
  "pushDependency a d h =
     h[a := (h ! a)\<lparr>quorumSet :=
        AnalysisQuorumSet (threshold (quorumSet (h ! a))) (dependencies (quorumSet (h ! a)) @ [d])\<rparr>]"

definition pushDependent :: "nat \<Rightarrow> string \<Rightarrow> store \<Rightarrow> store" where
  "pushDependent a n h = h[a := (h ! a)\<lparr>dependentsNames := dependentsNames (h ! a) @ [n]\<rparr>]"

fun generateNode ::
    "nat \<Rightarrow> NetworkGraphNode list \<Rightarrow> NetworkGraphNode \<Rightarrow> store \<times> entryCache
      \<Rightarrow> (nat \<times> store \<times> entryCache) outcome"
and generateQuorumset ::
    "nat \<Rightarrow> NetworkGraphNode list \<Rightarrow> NetworkQuorumSet \<Rightarrow> nat \<Rightarrow> store \<times> entryCache
      \<Rightarrow> (store \<times> entryCache) outcome"
where
  "generateNode 0 nodes nd st = None"
| "generateNode (Suc k) nodes nd st =
     (case map_of (snd st) (node nd) of
        Some cached \<Rightarrow> Some (Inr (cached, st))
      | None \<Rightarrow>
          (let entry = \<lparr>name = node nd, live = True,
                        quorumSet = AnalysisQuorumSet (qset_t (qset nd)) [],
                        dependentsNames = [], networkObject = nd\<rparr>;
               a = length (fst st);
               st1 = (fst st @ [entry], AList.update (name entry) a (snd st))
           in case generateQuorumset k nodes (qset nd) a st1 of
                None \<Rightarrow> None
              | Some (Inl e) \<Rightarrow> Some (Inl e)
              | Some (Inr st2) \<Rightarrow> Some (Inr (a, st2))))"
| "generateQuorumset 0 nodes qs entry st = None"
| "generateQuorumset (Suc k) nodes qs entry st =
     (if isNested (qset_v qs) then
        forEach (\<lambda>x s. case x of
                   QSet sub \<Rightarrow> generateQuorumset k nodes sub entry s
                 | QName _ \<Rightarrow> Some (Inl TypeError))
          (qset_v qs) st
      else
        forEach (\<lambda>dependentName s.
                   case find (\<lambda>n. node n = toString dependentName) nodes of
                     None \<Rightarrow> Some (Inl (BadNetworkGraph (toString dependentName)))
                   | Some dependentNetworkNode \<Rightarrow>
                       (case generateNode k nodes dependentNetworkNode s of
                          None \<Rightarrow> None
                        | Some (Inl e) \<Rightarrow> Some (Inl e)
                        | Some (Inr (depNode, h, c)) \<Rightarrow>
                            (let h1 = pushDependency entry (DepName (name (h ! depNode))) h;
                                 h2 = pushDependent depNode (name (h1 ! entry)) h1
                             in Some (Inr (h2, c)))))
          (qset_v qs) st)"

text \<open>
  The result \<^verbatim>\<open>{ root, entries }\<close>: the address of the root object, the addresses in
  \<^verbatim>\<open>Array.from(entryCache.values())\<close>, and the store they point into.
\<close>

record AnalysisStructure =
  root :: nat
  entries :: "nat list"
  objects :: store

definition createAnalysisStructure ::
    "nat \<Rightarrow> NetworkGraphNode list \<Rightarrow> AnalysisStructure outcome" where
  "createAnalysisStructure fuel nodes =
     (case find (\<lambda>n. distance n = 0) nodes of
        None \<Rightarrow> Some (Inl NoHomeNode)
      | Some myNode \<Rightarrow>
          (case generateNode fuel nodes myNode ([], []) of
             None \<Rightarrow> None
           | Some (Inl e) \<Rightarrow> Some (Inl e)
           | Some (Inr (r, h, c)) \<Rightarrow>
               Some (Inr \<lparr>root = r, entries = map snd c, objects = h\<rparr>)))"

subsection \<open>One failure simulation pass\<close>

text \<open>
  The state a pass works on: the store of the analysis nodes (their \<^verbatim>\<open>live\<close> flags are
  written) and the list \<^verbatim>\<open>deadNodes\<close>. The array \<^verbatim>\<open>analysisNodes\<close> of addresses is
  never written after construction and is a parameter.
\<close>

record pass =
  heap :: store
  deadNodes :: "NetworkGraphNode list"

text \<open>\<^verbatim>\<open>getNode\<close>: \<^verbatim>\<open>analysisNodes.find(n => n.name == name)\<close>, \<^verbatim>\<open>undefined\<close> when there is none.\<close>

definition getNode :: "nat list \<Rightarrow> store \<Rightarrow> string \<Rightarrow> nat option" where
  "getNode analysisNodes h nm = find (\<lambda>a. name (h ! a) = nm) analysisNodes"

text \<open>\<^verbatim>\<open>reset\<close>: \<^verbatim>\<open>nodes.forEach(n => (n.live = true))\<close>.\<close>

definition reset :: "nat list \<Rightarrow> store \<Rightarrow> store" where
  "reset analysisNodes h = fold (\<lambda>a h'. h'[a := (h' ! a)\<lparr>live := True\<rparr>]) analysisNodes h"

text \<open>
  \<^verbatim>\<open>quorumSetMeetsThreshold\<close>; \<open>countDependencies\<close> is its \<^verbatim>\<open>forEach\<close> over
  \<^verbatim>\<open>quorum.dependencies\<close>, which carries the local variable \<^verbatim>\<open>threshold\<close>. Reading
  \<^verbatim>\<open>.live\<close> of the \<^verbatim>\<open>undefined\<close> that \<^verbatim>\<open>getNode\<close> returns for an unknown name throws.
\<close>

fun quorumSetMeetsThreshold ::
    "nat list \<Rightarrow> AnalysisQuorumSet \<Rightarrow> pass \<Rightarrow> error + (bool \<times> pass)"
and countDependencies ::
    "nat list \<Rightarrow> AnalysisDep list \<Rightarrow> int \<Rightarrow> pass \<Rightarrow> error + (int \<times> pass)"
where
  "quorumSetMeetsThreshold ans (AnalysisQuorumSet t deps) s =
     (case countDependencies ans deps t s of
        Inl e \<Rightarrow> Inl e
      | Inr (t', s') \<Rightarrow> Inr (t' \<le> 0, s'))"
| "countDependencies ans [] t s = Inr (t, s)"
| "countDependencies ans (DepSet dependent # ds) t s =
     (case quorumSetMeetsThreshold ans dependent s of
        Inl e \<Rightarrow> Inl e
      | Inr (ok, s') \<Rightarrow> countDependencies ans ds (if ok then t - 1 else t) s')"
| "countDependencies ans (DepName dependent # ds) t s =
     (case getNode ans (heap s) dependent of
        None \<Rightarrow> Inl TypeError
      | Some dependentNode \<Rightarrow>
          if live (heap s ! dependentNode) then countDependencies ans ds (t - 1) s
          else countDependencies ans ds t
                 (s\<lparr>deadNodes := deadNodes s @ [networkObject (heap s ! dependentNode)]\<rparr>))"

text \<open>\<^verbatim>\<open>checkDependents\<close>, with a budget for the depth of its recursion.\<close>

fun checkDependents :: "nat \<Rightarrow> nat list \<Rightarrow> nat \<Rightarrow> pass \<Rightarrow> pass outcome" where
  "checkDependents 0 ans deadNode s = None"
| "checkDependents (Suc k) ans deadNode s =
     forEach (\<lambda>nodeName s.
        case getNode ans (heap s) nodeName of
          None \<Rightarrow> Some (Inl TypeError)
        | Some dependentNode \<Rightarrow>
            if live (heap s ! dependentNode) then
              (case quorumSetMeetsThreshold ans (quorumSet (heap s ! dependentNode)) s of
                 Inl e \<Rightarrow> Some (Inl e)
               | Inr (ok, s1) \<Rightarrow>
                   if \<not> ok then
                     (let s2 = s1\<lparr>heap := (heap s1)[dependentNode :=
                                     (heap s1 ! dependentNode)\<lparr>live := False\<rparr>]\<rparr>;
                          s3 = s2\<lparr>deadNodes := deadNodes s2 @
                                     [networkObject (heap s2 ! dependentNode)]\<rparr>
                      in checkDependents k ans dependentNode s3)
                   else Some (Inr s1))
            else Some (Inr s))
       (dependentsNames (heap s ! deadNode)) s"

subsection \<open>The driver: \<^verbatim>\<open>haltingAnalysis\<close>\<close>

text \<open>
  \<^verbatim>\<open>Array.from(new Set(deadNodes))\<close>: the elements in the order of their first occurrence.
  The objects in \<^verbatim>\<open>deadNodes\<close> are the \<^verbatim>\<open>networkObject\<close>s of analysis nodes; they are
  compared by their value.
\<close>

definition uniq :: "'a list \<Rightarrow> 'a list" where
  "uniq xs = foldl (\<lambda>acc x. if x \<in> set acc then acc else acc @ [x]) [] xs"

text \<open>
  The body of \<^verbatim>\<open>analysisNodes.forEach(nodeToHalt => ...)\<close>, on the store and the list
  \<^verbatim>\<open>failureCases\<close>. \<^verbatim>\<open>nodeToHalt === root\<close> compares two objects, here two addresses.
\<close>

definition haltingPass ::
    "nat \<Rightarrow> nat list \<Rightarrow> nat \<Rightarrow> nat \<Rightarrow> store \<times> HaltingFailure list
       \<Rightarrow> (store \<times> HaltingFailure list) outcome" where
  "haltingPass fuel ans rt nodeToHalt st =
     (if nodeToHalt = rt then Some (Inr st)
      else
        (let h1 = reset ans (fst st);
             s0 = \<lparr>heap = h1[nodeToHalt := (h1 ! nodeToHalt)\<lparr>live := False\<rparr>], deadNodes = []\<rparr>
         in case checkDependents fuel ans nodeToHalt s0 of
              None \<Rightarrow> None
            | Some (Inl e) \<Rightarrow> Some (Inl e)
            | Some (Inr s1) \<Rightarrow>
                if \<not> live (heap s1 ! rt) then
                  Some (Inr (heap s1, snd st @
                    [\<lparr>vulnerableNodes = [networkObject (heap s1 ! nodeToHalt)],
                      affectedNodes = uniq (deadNodes s1)\<rparr>]))
                else Some (Inr (heap s1, snd st))))"

text \<open>
  \<^verbatim>\<open>haltingAnalysis(nodes, numberOfNodesToTest = 1)\<close>: a call without the second argument
  is the call with 1. The one budget bounds the depth of recursion of graph construction
  and of every pass.
\<close>

definition haltingAnalysis ::
    "nat \<Rightarrow> NetworkGraphNode list \<Rightarrow> int \<Rightarrow> HaltingFailure list outcome" where
  "haltingAnalysis fuel nodes numberOfNodesToTest =
     (if numberOfNodesToTest \<noteq> 1 then Some (Inl UnsupportedOrder)
      else
        (case createAnalysisStructure fuel nodes of
           None \<Rightarrow> None
         | Some (Inl e) \<Rightarrow> Some (Inl e)
         | Some (Inr str) \<Rightarrow>
             (case forEach (haltingPass fuel (entries str) (root str)) (entries str)
                     (objects str, []) of
                None \<Rightarrow> None
              | Some (Inl e) \<Rightarrow> Some (Inl e)
              | Some (Inr (h, failureCases)) \<Rightarrow> Some (Inr failureCases))))"

subsection \<open>The callbacks of the loops, named\<close>

text \<open>
  The functions passed to \<^verbatim>\<open>forEach\<close> in \<open>generateQuorumset\<close> and \<open>checkDependents\<close>,
  as constants of their own, so that the loops can be reasoned about one iteration at a time.
\<close>

definition visitNested ::
    "nat \<Rightarrow> NetworkGraphNode list \<Rightarrow> nat \<Rightarrow> QEntry \<Rightarrow> store \<times> entryCache
       \<Rightarrow> (store \<times> entryCache) outcome" where
  "visitNested k nodes entry =
     (\<lambda>x s. case x of
        QSet sub \<Rightarrow> generateQuorumset k nodes sub entry s
      | QName _ \<Rightarrow> Some (Inl TypeError))"

definition visitName ::
    "nat \<Rightarrow> NetworkGraphNode list \<Rightarrow> nat \<Rightarrow> QEntry \<Rightarrow> store \<times> entryCache
       \<Rightarrow> (store \<times> entryCache) outcome" where
  "visitName k nodes entry =
     (\<lambda>dependentName s.
        case find (\<lambda>n. node n = toString dependentName) nodes of
          None \<Rightarrow> Some (Inl (BadNetworkGraph (toString dependentName)))
        | Some dependentNetworkNode \<Rightarrow>
            (case generateNode k nodes dependentNetworkNode s of
               None \<Rightarrow> None
             | Some (Inl e) \<Rightarrow> Some (Inl e)
             | Some (Inr (depNode, h, c)) \<Rightarrow>
                 (let h1 = pushDependency entry (DepName (name (h ! depNode))) h;
                      h2 = pushDependent depNode (name (h1 ! entry)) h1
                  in Some (Inr (h2, c)))))"

definition markDead :: "nat \<Rightarrow> pass \<Rightarrow> pass" where
  "markDead dependentNode s1 =
     (let s2 = s1\<lparr>heap := (heap s1)[dependentNode :=
                     (heap s1 ! dependentNode)\<lparr>live := False\<rparr>]\<rparr>
      in s2\<lparr>deadNodes := deadNodes s2 @ [networkObject (heap s2 ! dependentNode)]\<rparr>)"

definition visitDependent :: "nat \<Rightarrow> nat list \<Rightarrow> string \<Rightarrow> pass \<Rightarrow> pass outcome" where
  "visitDependent k ans =
     (\<lambda>nodeName s.
        case getNode ans (heap s) nodeName of
          None \<Rightarrow> Some (Inl TypeError)
        | Some dependentNode \<Rightarrow>
            if live (heap s ! dependentNode) then
              (case quorumSetMeetsThreshold ans (quorumSet (heap s ! dependentNode)) s of
                 Inl e \<Rightarrow> Some (Inl e)
               | Inr (ok, s1) \<Rightarrow>
                   if \<not> ok then checkDependents k ans dependentNode (markDead dependentNode s1)
                   else Some (Inr s1))
            else Some (Inr s))"

text \<open>The object that \<open>generateNode\<close> allocates, its registration, and the two \<^verbatim>\<open>push\<close>es.\<close>

definition newEntry :: "NetworkGraphNode \<Rightarrow> AnalysisNode" where
  "newEntry nd = \<lparr>name = node nd, live = True,
                  quorumSet = AnalysisQuorumSet (qset_t (qset nd)) [],
                  dependentsNames = [], networkObject = nd\<rparr>"

definition allocate :: "NetworkGraphNode \<Rightarrow> store \<times> entryCache \<Rightarrow> store \<times> entryCache" where
  "allocate nd st = (fst st @ [newEntry nd], AList.update (node nd) (length (fst st)) (snd st))"

definition addEdges :: "nat \<Rightarrow> nat \<Rightarrow> store \<Rightarrow> store" where
  "addEdges entry depNode h =
     (let h1 = pushDependency entry (DepName (name (h ! depNode))) h
      in pushDependent depNode (name (h1 ! entry)) h1)"

subsection \<open>The scenarios of the specification\<close>

definition leafNode :: "string \<Rightarrow> int \<Rightarrow> NetworkGraphNode" where
  "leafNode n d = \<lparr>node = n, qset = NetworkQuorumSet 0 [], distance = d\<rparr>"

definition homeNode :: "int \<Rightarrow> QEntry list \<Rightarrow> NetworkGraphNode" where
  "homeNode t vs = \<lparr>node = ''H'', qset = NetworkQuorumSet t vs, distance = 0\<rparr>"

text \<open>Scenario A: H needs 2 of A, B, C.\<close>

definition scenarioA :: "NetworkGraphNode list" where
  "scenarioA =
     [homeNode 2 [QName ''A'', QName ''B'', QName ''C''],
      leafNode ''A'' 1, leafNode ''B'' 1, leafNode ''C'' 1]"

text \<open>Scenario B: H needs A; B is referenced by nobody.\<close>

definition scenarioB :: "NetworkGraphNode list" where
  "scenarioB = [homeNode 1 [QName ''A''], leafNode ''A'' 1, leafNode ''B'' 2]"

text \<open>H needs both of two inner sets: one of A, B, and C.\<close>

definition nestedHome :: NetworkGraphNode where
  "nestedHome =
     homeNode 2 [QSet (NetworkQuorumSet 1 [QName ''A'', QName ''B'']),
                 QSet (NetworkQuorumSet 1 [QName ''C''])]"

definition scenarioNested :: "NetworkGraphNode list" where
  "scenarioNested = [nestedHome, leafNode ''A'' 1, leafNode ''B'' 1, leafNode ''C'' 1]"

text \<open>
  The structure built from it, and the requirement of H as it would be with the nesting
  kept.
\<close>

definition nestedStructure :: AnalysisStructure where
  "nestedStructure =
     \<lparr>root = 0, entries = [0, 1, 2, 3],
      objects =
        [\<lparr>name = ''H'', live = True,
          quorumSet = AnalysisQuorumSet 2 [DepName ''A'', DepName ''B'', DepName ''C''],
          dependentsNames = [], networkObject = nestedHome\<rparr>,
         \<lparr>name = ''A'', live = True, quorumSet = AnalysisQuorumSet 0 [],
          dependentsNames = [''H''], networkObject = leafNode ''A'' 1\<rparr>,
         \<lparr>name = ''B'', live = True, quorumSet = AnalysisQuorumSet 0 [],
          dependentsNames = [''H''], networkObject = leafNode ''B'' 1\<rparr>,
         \<lparr>name = ''C'', live = True, quorumSet = AnalysisQuorumSet 0 [],
          dependentsNames = [''H''], networkObject = leafNode ''C'' 1\<rparr>]\<rparr>"

definition nestedRequirement :: AnalysisQuorumSet where
  "nestedRequirement =
     AnalysisQuorumSet 2
       [DepSet (AnalysisQuorumSet 1 [DepName ''A'', DepName ''B'']),
        DepSet (AnalysisQuorumSet 1 [DepName ''C''])]"


text \<open>Two nodes that require each other, and the structure built from them.\<close>

definition cycleA :: NetworkGraphNode where
  "cycleA = \<lparr>node = ''A'', qset = NetworkQuorumSet 1 [QName ''B''], distance = 0\<rparr>"

definition cycleB :: NetworkGraphNode where
  "cycleB = \<lparr>node = ''B'', qset = NetworkQuorumSet 1 [QName ''A''], distance = 1\<rparr>"

definition scenarioCycle :: "NetworkGraphNode list" where
  "scenarioCycle = [cycleA, cycleB]"

definition cycleStructure :: AnalysisStructure where
  "cycleStructure =
     \<lparr>root = 0, entries = [0, 1],
       objects =
         [\<lparr>name = ''A'', live = True, quorumSet = AnalysisQuorumSet 1 [DepName ''B''],
           dependentsNames = [''B''], networkObject = cycleA\<rparr>,
          \<lparr>name = ''B'', live = True, quorumSet = AnalysisQuorumSet 1 [DepName ''A''],
           dependentsNames = [''A''], networkObject = cycleB\<rparr>]\<rparr>"

text \<open>Two inputs whose home node mixes a name and a nested set in one list.\<close>

definition mixedSetFirst :: "NetworkGraphNode list" where
  "mixedSetFirst =
     [homeNode 1 [QSet (NetworkQuorumSet 1 [QName ''A'']), QName ''B''],
      leafNode ''A'' 1, leafNode ''B'' 1]"

definition mixedNameFirst :: "NetworkGraphNode list" where
  "mixedNameFirst =
     [homeNode 1 [QName ''B'', QSet (NetworkQuorumSet 1 [QName ''A''])],
      leafNode ''A'' 1, leafNode ''B'' 1]"

subsection \<open>A budget that is enough for graph construction\<close>

text \<open>
  The nesting depth of a quorum set, the largest one among the input nodes, and a budget
  computed from the input: one unit, plus for every input node the depth of a quorum-set
  walk and the call that starts it.
\<close>

fun qdepth :: "NetworkQuorumSet \<Rightarrow> nat"
and edepth :: "QEntry \<Rightarrow> nat" where
  "qdepth (NetworkQuorumSet t vs) = Suc (fold max (map edepth vs) 0)"
| "edepth (QName _) = 0"
| "edepth (QSet sub) = qdepth sub"

definition maxDepth :: "NetworkGraphNode list \<Rightarrow> nat" where
  "maxDepth nodes = fold max (map (\<lambda>n. qdepth (qset n)) nodes) 0"

definition constructionBudget :: "NetworkGraphNode list \<Rightarrow> nat" where
  "constructionBudget nodes = 1 + length nodes * Suc (maxDepth nodes)"

definition uncached :: "NetworkGraphNode list \<Rightarrow> entryCache \<Rightarrow> nat" where
  "uncached nodes c = card (node ` set nodes - fst ` set c)"

subsection \<open>What the evaluator computes, in the words of the specification\<close>

text \<open>
  The direct references of a requirement in the order the evaluator visits them; the
  liveness assignment by name; the requirement is satisfied when at least \<open>t\<close> of its
  entries are, a direct reference being satisfied when the node it names is live and a
  nested requirement when it is satisfied itself; the casualties are the network objects
  of the direct references that are dead.
\<close>

fun depNames :: "AnalysisQuorumSet \<Rightarrow> string list"
and depNamesList :: "AnalysisDep list \<Rightarrow> string list" where
  "depNames (AnalysisQuorumSet t deps) = depNamesList deps"
| "depNamesList [] = []"
| "depNamesList (DepName n # ds) = n # depNamesList ds"
| "depNamesList (DepSet q # ds) = depNames q @ depNamesList ds"

definition liveness :: "nat list \<Rightarrow> store \<Rightarrow> string \<Rightarrow> bool" where
  "liveness ans h nm = (case getNode ans h nm of None \<Rightarrow> False | Some a \<Rightarrow> live (h ! a))"

fun satisfied :: "(string \<Rightarrow> bool) \<Rightarrow> AnalysisQuorumSet \<Rightarrow> bool"
and satisfiedEntries :: "(string \<Rightarrow> bool) \<Rightarrow> AnalysisDep list \<Rightarrow> int" where
  "satisfied lv (AnalysisQuorumSet t deps) = (t \<le> satisfiedEntries lv deps)"
| "satisfiedEntries lv [] = 0"
| "satisfiedEntries lv (DepName n # ds) = (if lv n then 1 else 0) + satisfiedEntries lv ds"
| "satisfiedEntries lv (DepSet q # ds) = (if satisfied lv q then 1 else 0) + satisfiedEntries lv ds"

definition resolvable :: "nat list \<Rightarrow> store \<Rightarrow> string list \<Rightarrow> bool" where
  "resolvable ans h nms = list_all (\<lambda>nm. getNode ans h nm \<noteq> None) nms"

definition casualty :: "nat list \<Rightarrow> store \<Rightarrow> string \<Rightarrow> NetworkGraphNode list" where
  "casualty ans h nm =
     (case getNode ans h nm of
        None \<Rightarrow> []
      | Some a \<Rightarrow> if live (h ! a) then [] else [networkObject (h ! a)])"

definition casualties :: "nat list \<Rightarrow> store \<Rightarrow> string list \<Rightarrow> NetworkGraphNode list" where
  "casualties ans h nms = concat (map (casualty ans h) nms)"

subsection \<open>Liveness within a pass\<close>

text \<open>
  \<open>noRevival h h'\<close>: the stores have the same objects and no object that is dead in \<open>h\<close>
  is live in \<open>h'\<close>. \<open>startPass\<close> is the state in which the source calls
  \<^verbatim>\<open>checkDependents(nodeToHalt)\<close>.
\<close>

definition noRevival :: "store \<Rightarrow> store \<Rightarrow> bool" where
  "noRevival h h' = list_all2 (\<lambda>n n'. live n' \<longrightarrow> live n) h h'"

definition startPass :: "nat list \<Rightarrow> nat \<Rightarrow> store \<Rightarrow> pass" where
  "startPass ans nodeToHalt h =
     (let h1 = reset ans h
      in \<lparr>heap = h1[nodeToHalt := (h1 ! nodeToHalt)\<lparr>live := False\<rparr>], deadNodes = []\<rparr>)"


text \<open>The end of the pass that fails B in the cycle, and a requirement with a nested entry.\<close>

definition cyclePassEnd :: pass where
  "cyclePassEnd =
     \<lparr>heap = map (\<lambda>n. n\<lparr>live := False\<rparr>) (objects cycleStructure),
      deadNodes = [cycleB, cycleA]\<rparr>"

definition mixedRequirement :: AnalysisQuorumSet where
  "mixedRequirement =
     AnalysisQuorumSet 1 [DepName ''B'', DepSet (AnalysisQuorumSet 1 [DepName ''A''])]"

subsection \<open>Graph construction that looks at each entry's own variant\<close>

text \<open>
  \<open>wellTyped\<close>: every list of entries, at every depth, holds names only or nested sets only;
  these are the values of the declared type \<^verbatim>\<open>string[] | QuorumSet[]\<close>. The functions
  \<open>generateNodeTagged\<close> and \<open>generateQuorumsetTagged\<close> follow the words of the specification:
  they are \<open>generateNode\<close> and \<open>generateQuorumset\<close> with the test on the first element
  replaced by a case distinction on each entry, a name creating the two edges and a
  nested set being walked.
\<close>

fun isName :: "QEntry \<Rightarrow> bool" where
  "isName (QName _) = True"
| "isName (QSet _) = False"

fun wellTyped :: "NetworkQuorumSet \<Rightarrow> bool" where
  "wellTyped (NetworkQuorumSet t vs) =
     (list_all isName vs \<or>
      list_all (\<lambda>x. case x of QSet sub \<Rightarrow> wellTyped sub | QName _ \<Rightarrow> False) vs)"

fun generateNodeTagged ::
    "nat \<Rightarrow> NetworkGraphNode list \<Rightarrow> NetworkGraphNode \<Rightarrow> store \<times> entryCache
      \<Rightarrow> (nat \<times> store \<times> entryCache) outcome"
and generateQuorumsetTagged ::
    "nat \<Rightarrow> NetworkGraphNode list \<Rightarrow> NetworkQuorumSet \<Rightarrow> nat \<Rightarrow> store \<times> entryCache
      \<Rightarrow> (store \<times> entryCache) outcome"
where
  "generateNodeTagged 0 nodes nd st = None"
| "generateNodeTagged (Suc k) nodes nd st =
     (case map_of (snd st) (node nd) of
        Some cached \<Rightarrow> Some (Inr (cached, st))
      | None \<Rightarrow>
          (case generateQuorumsetTagged k nodes (qset nd) (length (fst st)) (allocate nd st) of
             None \<Rightarrow> None
           | Some (Inl e) \<Rightarrow> Some (Inl e)
           | Some (Inr st2) \<Rightarrow> Some (Inr (length (fst st), st2))))"
| "generateQuorumsetTagged 0 nodes qs entry st = None"
| "generateQuorumsetTagged (Suc k) nodes qs entry st =
     forEach (\<lambda>x s. case x of
                QSet sub \<Rightarrow> generateQuorumsetTagged k nodes sub entry s
              | QName dependentName \<Rightarrow>
                  (case find (\<lambda>n. node n = dependentName) nodes of
                     None \<Rightarrow> Some (Inl (BadNetworkGraph dependentName))
                   | Some dependentNetworkNode \<Rightarrow>
                       (case generateNodeTagged k nodes dependentNetworkNode s of
                          None \<Rightarrow> None
                        | Some (Inl e) \<Rightarrow> Some (Inl e)
                        | Some (Inr (depNode, h, c)) \<Rightarrow> Some (Inr (addEdges entry depNode h, c)))))
       (qset_v qs) st"

definition createAnalysisStructureTagged ::
    "nat \<Rightarrow> NetworkGraphNode list \<Rightarrow> AnalysisStructure outcome" where
  "createAnalysisStructureTagged fuel nodes =
     (case find (\<lambda>n. distance n = 0) nodes of
        None \<Rightarrow> Some (Inl NoHomeNode)
      | Some myNode \<Rightarrow>
          (case generateNodeTagged fuel nodes myNode ([], []) of
             None \<Rightarrow> None
           | Some (Inl e) \<Rightarrow> Some (Inl e)
           | Some (Inr (r, h, c)) \<Rightarrow>
               Some (Inr \<lparr>root = r, entries = map snd c, objects = h\<rparr>)))"

definition visitTagged ::
    "nat \<Rightarrow> NetworkGraphNode list \<Rightarrow> nat \<Rightarrow> QEntry \<Rightarrow> store \<times> entryCache
       \<Rightarrow> (store \<times> entryCache) outcome" where
  "visitTagged k nodes entry =
     (\<lambda>x s. case x of
                QSet sub \<Rightarrow> generateQuorumsetTagged k nodes sub entry s
              | QName dependentName \<Rightarrow>
                  (case find (\<lambda>n. node n = dependentName) nodes of
                     None \<Rightarrow> Some (Inl (BadNetworkGraph dependentName))
                   | Some dependentNetworkNode \<Rightarrow>
                       (case generateNodeTagged k nodes dependentNetworkNode s of
                          None \<Rightarrow> None
                        | Some (Inl e) \<Rightarrow> Some (Inl e)
                        | Some (Inr (depNode, h, c)) \<Rightarrow> Some (Inr (addEdges entry depNode h, c)))))"

subsection \<open>The nodes that graph construction reaches\<close>

text \<open>
  \<open>references\<close>: the names that the walk of a quorum set looks up, in order. \<open>reachable\<close>:
  the identifier of the home node, and every name referenced by the quorum set of the
  input node that a reachable identifier resolves to.
\<close>

fun references :: "NetworkQuorumSet \<Rightarrow> string list"
and nestedReferences :: "QEntry list \<Rightarrow> string list" where
  "references (NetworkQuorumSet t vs) =
     (if isNested vs then nestedReferences vs else map toString vs)"
| "nestedReferences [] = []"
| "nestedReferences (QSet sub # xs) = references sub @ nestedReferences xs"
| "nestedReferences (QName _ # xs) = nestedReferences xs"

inductive_set reachable :: "NetworkGraphNode list \<Rightarrow> string set"
  for nodes :: "NetworkGraphNode list" where
  home: "find (\<lambda>n. distance n = 0) nodes = Some myNode \<Longrightarrow> node myNode \<in> reachable nodes"
| step: "a \<in> reachable nodes \<Longrightarrow> find (\<lambda>n. node n = a) nodes = Some nd \<Longrightarrow>
         b \<in> set (references (qset nd)) \<Longrightarrow> b \<in> reachable nodes"

text \<open>
  What the proofs keep track of. The \<open>signature\<close> of a store is the part of its objects
  that is never written after allocation. A state is \<open>consistent\<close> when the cache lists the
  names of the store in allocation order, no name twice, every object stands for the
  input node of its name, and every name is reachable. A later state \<open>extends\<close> an earlier
  one when it has the same objects and new ones after them, and each new one has all its
  references in the store.
\<close>

definition signature :: "store \<Rightarrow> (string \<times> NetworkGraphNode) list" where
  "signature h = map (\<lambda>n. (name n, networkObject n)) h"

definition closedIn :: "(string \<times> NetworkGraphNode) list \<Rightarrow> nat \<Rightarrow> bool" where
  "closedIn sg i = (set (references (qset (snd (sg ! i)))) \<subseteq> fst ` set sg)"

definition consistent :: "NetworkGraphNode list \<Rightarrow> store \<times> entryCache \<Rightarrow> bool" where
  "consistent nodes st =
     (let sg = signature (fst st)
      in snd st = zip (map fst sg) [0..<length sg] \<and>
         distinct (map fst sg) \<and>
         (\<forall>p\<in>set sg. snd p \<in> set nodes \<and> node (snd p) = fst p) \<and>
         fst ` set sg \<subseteq> reachable nodes)"

definition extends :: "store \<times> entryCache \<Rightarrow> store \<times> entryCache \<Rightarrow> bool" where
  "extends st st' =
     ((\<exists>ys. signature (fst st') = signature (fst st) @ ys) \<and>
      (\<forall>i. length (fst st) \<le> i \<and> i < length (fst st') \<longrightarrow> closedIn (signature (fst st')) i))"

text \<open>
  The names and the network objects of the entries of a structure, in the order of
  \<open>entries\<close>; and the structure built from Scenario B.
\<close>

definition entryNames :: "AnalysisStructure \<Rightarrow> string list" where
  "entryNames str = map (\<lambda>a. name (objects str ! a)) (entries str)"

definition entryObjects :: "AnalysisStructure \<Rightarrow> NetworkGraphNode list" where
  "entryObjects str = map (\<lambda>a. networkObject (objects str ! a)) (entries str)"

definition structureB :: AnalysisStructure where
  "structureB =
     \<lparr>root = 0, entries = [0, 1],
      objects =
        [\<lparr>name = ''H'', live = True, quorumSet = AnalysisQuorumSet 1 [DepName ''A''],
          dependentsNames = [], networkObject = homeNode 1 [QName ''A'']\<rparr>,
         \<lparr>name = ''A'', live = True, quorumSet = AnalysisQuorumSet 0 [],
          dependentsNames = [''H''], networkObject = leafNode ''A'' 1\<rparr>]\<rparr>"

text \<open>
  A valid input: the identifiers are distinct, some node has distance 0, every entry list
  is homogeneous, and every referenced identifier is the identifier of an input node.
\<close>

definition validInput :: "NetworkGraphNode list \<Rightarrow> bool" where
  "validInput nodes =
     (distinct (map node nodes) \<and>
      find (\<lambda>n. distance n = 0) nodes \<noteq> None \<and>
      list_all (\<lambda>nd. wellTyped (qset nd) \<and>
                  list_all (\<lambda>b. b \<in> set (map node nodes)) (references (qset nd))) nodes)"

subsection \<open>Scenario A, pass by pass\<close>

text \<open>
  The structure built from Scenario A, and the state at the end of the pass that fails
  the object at address \<open>c\<close>: that object dead, every other one live, itself the only
  casualty. \<open>passSparesHome fuel c h\<close> says what the pass for candidate \<open>c\<close> does when it
  starts from the store \<open>h\<close>: after \<^verbatim>\<open>reset\<close> and \<^verbatim>\<open>nodeToHalt.live = false\<close> the candidate is
  dead; the requirement of H then evaluates to true (and records the candidate);
  \<open>checkDependents\<close> ends in \<open>passEndA c\<close>, where the candidate is dead and H is live; and the
  body of the loop appends no failure case.
\<close>

definition structureA :: AnalysisStructure where
  "structureA =
     \<lparr>root = 0, entries = [0, 1, 2, 3],
      objects =
        [\<lparr>name = ''H'', live = True,
          quorumSet = AnalysisQuorumSet 2 [DepName ''A'', DepName ''B'', DepName ''C''],
          dependentsNames = [],
          networkObject = homeNode 2 [QName ''A'', QName ''B'', QName ''C'']\<rparr>,
         \<lparr>name = ''A'', live = True, quorumSet = AnalysisQuorumSet 0 [],
          dependentsNames = [''H''], networkObject = leafNode ''A'' 1\<rparr>,
         \<lparr>name = ''B'', live = True, quorumSet = AnalysisQuorumSet 0 [],
          dependentsNames = [''H''], networkObject = leafNode ''B'' 1\<rparr>,
         \<lparr>name = ''C'', live = True, quorumSet = AnalysisQuorumSet 0 [],
          dependentsNames = [''H''], networkObject = leafNode ''C'' 1\<rparr>]\<rparr>"

definition passEndA :: "nat \<Rightarrow> pass" where
  "passEndA c =
     \<lparr>heap = (objects structureA)[c := (objects structureA ! c)\<lparr>live := False\<rparr>],
      deadNodes = [networkObject (objects structureA ! c)]\<rparr>"

definition passSparesHome :: "nat \<Rightarrow> nat \<Rightarrow> store \<Rightarrow> bool" where
  "passSparesHome fuel c h =
     (let ans = entries structureA; rt = root structureA; s0 = startPass ans c h
      in \<not> live (heap s0 ! c) \<and>
         quorumSetMeetsThreshold ans (quorumSet (heap s0 ! rt)) s0 = Inr (True, passEndA c) \<and>
         checkDependents fuel ans c s0 = Some (Inr (passEndA c)) \<and>
         \<not> live (heap (passEndA c) ! c) \<and>
         live (heap (passEndA c) ! rt) \<and>
         haltingPass fuel ans rt c (h, []) = Some (Inr (heap (passEndA c), [])))"

section \<open>Properties\<close>

subsection \<open>One step of each function\<close>

lemma generateQuorumset_Suc:
  "generateQuorumset (Suc k) nodes qs entry st =
     (if isNested (qset_v qs) then forEach (visitNested k nodes entry) (qset_v qs) st
      else forEach (visitName k nodes entry) (qset_v qs) st)"
  by (simp add: visitNested_def visitName_def)

lemma checkDependents_Suc:
  "checkDependents (Suc k) ans deadNode s =
     forEach (visitDependent k ans) (dependentsNames (heap s ! deadNode)) s"
  unfolding checkDependents.simps visitDependent_def markDead_def Let_def ..


lemma generateNode_Suc:
  "generateNode (Suc k) nodes nd st =
     (case map_of (snd st) (node nd) of
        Some cached \<Rightarrow> Some (Inr (cached, st))
      | None \<Rightarrow>
          (case generateQuorumset k nodes (qset nd) (length (fst st)) (allocate nd st) of
             None \<Rightarrow> None
           | Some (Inl e) \<Rightarrow> Some (Inl e)
           | Some (Inr st2) \<Rightarrow> Some (Inr (length (fst st), st2))))"
  unfolding generateNode.simps allocate_def newEntry_def Let_def AnalysisNode.select_convs ..

lemma generateNode_SucE:
  assumes "generateNode (Suc k) nodes nd st = Some (Inr (a, st'))"
  obtains (cached) "map_of (snd st) (node nd) = Some a" "st' = st"
    | (fresh) "map_of (snd st) (node nd) = None" "a = length (fst st)"
        "generateQuorumset k nodes (qset nd) a (allocate nd st) = Some (Inr st')"
proof (cases "map_of (snd st) (node nd)")
  case None
  show ?thesis
  proof (cases "generateQuorumset k nodes (qset nd) (length (fst st)) (allocate nd st)")
    case N: None
    with None assms show ?thesis by (simp add: generateNode_Suc del: generateNode.simps)
  next
    case (Some y)
    show ?thesis
    proof (cases y)
      case (Inl e)
      with None Some assms show ?thesis by (simp add: generateNode_Suc del: generateNode.simps)
    next
      case (Inr st2)
      with None Some assms have "a = length (fst st)" "st' = st2"
        by (simp_all add: generateNode_Suc del: generateNode.simps)
      with None Some Inr show ?thesis by (intro fresh) simp_all
    qed
  qed
next
  case (Some c)
  with assms have "a = c" "st' = st" by (simp_all add: generateNode_Suc del: generateNode.simps)
  with Some show ?thesis by (intro cached) simp_all
qed

lemma visitNestedE:
  assumes "visitNested k nodes entry x s = Some (Inr s')"
  obtains sub where "x = QSet sub" "generateQuorumset k nodes sub entry s = Some (Inr s')"
  using assms by (cases x) (simp_all add: visitNested_def)

lemma visitName_unfold:
  "visitName k nodes entry x s =
     (case find (\<lambda>n. node n = toString x) nodes of
        None \<Rightarrow> Some (Inl (BadNetworkGraph (toString x)))
      | Some dn \<Rightarrow>
          (case generateNode k nodes dn s of
             None \<Rightarrow> None
           | Some (Inl e) \<Rightarrow> Some (Inl e)
           | Some (Inr (d, h, c)) \<Rightarrow> Some (Inr (addEdges entry d h, c))))"
  unfolding visitName_def addEdges_def Let_def ..

lemma visitNameE:
  assumes "visitName k nodes entry x s = Some (Inr s')"
  obtains dn d h c where "find (\<lambda>n. node n = toString x) nodes = Some dn"
    "generateNode k nodes dn s = Some (Inr (d, h, c))" "s' = (addEdges entry d h, c)"
proof (cases "find (\<lambda>n. node n = toString x) nodes")
  case None
  with assms show ?thesis by (simp add: visitName_unfold)
next
  case (Some dn)
  show ?thesis
  proof (cases "generateNode k nodes dn s")
    case N: None
    with Some assms show ?thesis by (simp add: visitName_unfold)
  next
    case S: (Some y)
    show ?thesis
    proof (cases y)
      case (Inl e)
      with Some S assms show ?thesis by (simp add: visitName_unfold)
    next
      case (Inr r)
      obtain d h c where r: "r = (d, h, c)" by (cases r)
      with Some S Inr assms have "s' = (addEdges entry d h, c)" by (simp add: visitName_unfold)
      with Some S Inr r that show ?thesis by simp
    qed
  qed
qed

lemma generateQuorumset_SucE:
  assumes "generateQuorumset (Suc k) nodes qs entry st = Some r"
  obtains (nested) "isNested (qset_v qs)" "forEach (visitNested k nodes entry) (qset_v qs) st = Some r"
    | (names) "\<not> isNested (qset_v qs)" "forEach (visitName k nodes entry) (qset_v qs) st = Some r"
  using assms unfolding generateQuorumset_Suc by (cases "isNested (qset_v qs)") simp_all

lemma createAnalysisStructureE:
  assumes "createAnalysisStructure fuel nodes = Some (Inr str)"
  obtains myNode r h c where "find (\<lambda>n. distance n = 0) nodes = Some myNode"
    "generateNode fuel nodes myNode ([], []) = Some (Inr (r, h, c))"
    "str = \<lparr>root = r, entries = map snd c, objects = h\<rparr>"
proof (cases "find (\<lambda>n. distance n = 0) nodes")
  case None
  with assms show ?thesis by (simp add: createAnalysisStructure_def)
next
  case (Some myNode)
  show ?thesis
  proof (cases "generateNode fuel nodes myNode ([], [])")
    case N: None
    with Some assms show ?thesis by (simp add: createAnalysisStructure_def)
  next
    case S: (Some y)
    show ?thesis
    proof (cases y)
      case (Inl e)
      with Some S assms show ?thesis by (simp add: createAnalysisStructure_def)
    next
      case (Inr res)
      obtain r h c where res: "res = (r, h, c)" by (cases res)
      with Some S Inr assms have "str = \<lparr>root = r, entries = map snd c, objects = h\<rparr>"
        by (simp add: createAnalysisStructure_def)
      with Some S Inr res that show ?thesis by simp
    qed
  qed
qed

subsection \<open>Loops\<close>

lemma forEach_invariant:
  assumes "forEach f xs s = Some (Inr s')" and "I s"
    and "\<And>x s s'. x \<in> set xs \<Longrightarrow> I s \<Longrightarrow> f x s = Some (Inr s') \<Longrightarrow> I s'"
  shows "I s'"
  using assms
proof (induction xs arbitrary: s)
  case Nil
  then show ?case by simp
next
  case (Cons x xs)
  from Cons.prems(1) obtain s1 where s1: "f x s = Some (Inr s1)" "forEach f xs s1 = Some (Inr s')"
    by (auto split: option.splits sum.splits)
  have "I s1" by (rule Cons.prems(3)[OF _ Cons.prems(2) s1(1)]) simp
  show ?case
    by (rule Cons.IH[OF s1(2) \<open>I s1\<close>]) (rule Cons.prems(3), simp_all)
qed

lemma forEach_total:
  assumes "I s"
    and "\<And>x s. x \<in> set xs \<Longrightarrow> I s \<Longrightarrow> f x s \<noteq> None"
    and "\<And>x s s'. x \<in> set xs \<Longrightarrow> I s \<Longrightarrow> f x s = Some (Inr s') \<Longrightarrow> I s'"
  shows "forEach f xs s \<noteq> None"
  using assms
proof (induction xs arbitrary: s)
  case Nil
  then show ?case by simp
next
  case (Cons x xs)
  have "f x s \<noteq> None" by (rule Cons.prems(2)[OF _ Cons.prems(1)]) simp
  then obtain y where y: "f x s = Some y" by auto
  show ?case
  proof (cases y)
    case (Inl e)
    with y show ?thesis by simp
  next
    case (Inr s1)
    have "I s1" by (rule Cons.prems(3)[OF _ Cons.prems(1)]) (use y Inr in simp_all)
    have "forEach f xs s1 \<noteq> None"
    proof (rule Cons.IH[OF \<open>I s1\<close>])
      show "f x' s \<noteq> None" if "x' \<in> set xs" "I s" for x' s
        using that Cons.prems(2)[of x' s] by simp
      show "I s'" if "x' \<in> set xs" "I s" "f x' s = Some (Inr s')" for x' s s'
        using that Cons.prems(3)[of x' s s'] by simp
    qed
    with y Inr show ?thesis by simp
  qed
qed

lemma forEach_cong:
  "(\<And>x s. x \<in> set xs \<Longrightarrow> f x s = g x s) \<Longrightarrow> forEach f xs s = forEach g xs s"
  by (induction xs arbitrary: s) (auto split: option.splits sum.splits)

lemma forEach_post:
  assumes run: "forEach f xs s = Some (Inr s')"
    and I: "I s"
    and step: "\<And>x s s'. x \<in> set xs \<Longrightarrow> I s \<Longrightarrow> f x s = Some (Inr s') \<Longrightarrow>
                 I s' \<and> E s s' \<and> R x s'"
    and refl: "\<And>s. E s s"
    and trans: "\<And>s1 s2 s3. E s1 s2 \<Longrightarrow> E s2 s3 \<Longrightarrow> E s1 s3"
    and stable: "\<And>x s s'. R x s \<Longrightarrow> E s s' \<Longrightarrow> R x s'"
  shows "I s' \<and> E s s' \<and> (\<forall>x\<in>set xs. R x s')"
  using run I step
proof (induction xs arbitrary: s)
  case Nil
  then show ?case by (simp add: refl)
next
  case (Cons x xs)
  from Cons.prems(1) obtain s1 where s1: "f x s = Some (Inr s1)" "forEach f xs s1 = Some (Inr s')"
    by (auto split: option.splits sum.splits)
  have one: "I s1 \<and> E s s1 \<and> R x s1"
    by (rule Cons.prems(3)[OF _ Cons.prems(2) s1(1)]) simp
  have rest: "I s' \<and> E s1 s' \<and> (\<forall>x\<in>set xs. R x s')"
  proof (rule Cons.IH[OF s1(2)])
    show "I s1" using one by simp
    show "I s'' \<and> E s0 s'' \<and> R y s''" if "y \<in> set xs" "I s0" "f y s0 = Some (Inr s'')" for y s0 s''
      using Cons.prems(3)[of y s0 s''] that by simp
  qed
  from one rest have "E s s'" by (blast intro: trans)
  moreover from one rest have "R x s'" by (blast intro: stable)
  ultimately show ?case using rest by simp
qed

lemma forEach_mono:
  assumes "\<And>x s r. x \<in> set xs \<Longrightarrow> f x s = Some r \<Longrightarrow> g x s = Some r"
  shows "forEach f xs s = Some r \<Longrightarrow> forEach g xs s = Some r"
  using assms
proof (induction xs arbitrary: s)
  case Nil
  then show ?case by simp
next
  case (Cons x xs)
  from Cons.prems(1) obtain y where y: "f x s = Some y"
    by (cases "f x s") auto
  have gy: "g x s = Some y" using Cons.prems(2) y by simp
  show ?case
  proof (cases y)
    case (Inl e)
    with Cons.prems(1) y gy show ?thesis by auto
  next
    case (Inr s')
    with Cons.prems(1) y have "forEach f xs s' = Some r" by simp
    then have "forEach g xs s' = Some r"
      using Cons.IH Cons.prems(2) by simp
    with Inr gy show ?thesis by simp
  qed
qed

lemma generate_fuel_Suc:
  "(generateNode k nodes nd st = Some r \<longrightarrow> generateNode (Suc k) nodes nd st = Some r) \<and>
   (generateQuorumset k nodes qs entry st = Some r' \<longrightarrow>
      generateQuorumset (Suc k) nodes qs entry st = Some r')"
proof (induction k arbitrary: nd st qs entry r r')
  case 0
  show ?case by simp
next
  case (Suc k)
  have IH1: "generateNode (Suc k) nodes nd st = Some r"
    if "generateNode k nodes nd st = Some r" for nd st r
    using Suc.IH that by blast
  have IH2: "generateQuorumset (Suc k) nodes qs entry st = Some r"
    if "generateQuorumset k nodes qs entry st = Some r" for qs entry st r
    using Suc.IH that by blast
  have A: "generateNode (Suc (Suc k)) nodes nd st = Some r"
    if ev: "generateNode (Suc k) nodes nd st = Some r"
  proof (cases "map_of (snd st) (node nd)")
    case None
    let ?a = "length (fst st)"
    let ?st1 = "(fst st @ [\<lparr>name = node nd, live = True,
                        quorumSet = AnalysisQuorumSet (qset_t (qset nd)) [],
                        dependentsNames = [], networkObject = nd\<rparr>],
                 AList.update (node nd) ?a (snd st))"
    from ev None obtain y where y: "generateQuorumset k nodes (qset nd) ?a ?st1 = Some y"
      by (cases "generateQuorumset k nodes (qset nd) ?a ?st1") (auto simp: Let_def)
    from IH2[OF y] have y': "generateQuorumset (Suc k) nodes (qset nd) ?a ?st1 = Some y" .
    have "generateNode (Suc (Suc k)) nodes nd st = generateNode (Suc k) nodes nd st"
      using None y y' by (simp add: Let_def del: generateQuorumset.simps)
    with ev show ?thesis by simp
  next
    case (Some a)
    with ev show ?thesis by simp
  qed
  have vNested: "visitNested (Suc k) nodes entry x s = Some r"
    if "visitNested k nodes entry x s = Some r" for x s r
    using that IH2 by (cases x) (simp_all add: visitNested_def del: generateQuorumset.simps)
  have vName: "visitName (Suc k) nodes entry x s = Some r"
    if a: "visitName k nodes entry x s = Some r" for x s r
  proof (cases "find (\<lambda>n. node n = toString x) nodes")
    case None
    with a show ?thesis by (simp add: visitName_def)
  next
    case (Some dn)
    with a obtain y where y: "generateNode k nodes dn s = Some y"
      by (cases "generateNode k nodes dn s") (auto simp: visitName_def)
    from IH1[OF y] have "generateNode (Suc k) nodes dn s = generateNode k nodes dn s"
      using y by simp
    with a Some show ?thesis by (simp add: visitName_def del: generateNode.simps)
  qed
  have B: "generateQuorumset (Suc (Suc k)) nodes qs entry st = Some r'"
    if ev: "generateQuorumset (Suc k) nodes qs entry st = Some r'"
    using ev vNested vName
    unfolding generateQuorumset_Suc
    by (auto split: if_splits intro: forEach_mono[rotated])
  from A B show ?case by blast
qed

lemma generateNode_fuel_mono:
  "k \<le> k' \<Longrightarrow> generateNode k nodes nd st = Some r \<Longrightarrow> generateNode k' nodes nd st = Some r"
  by (induction k' rule: dec_induct) (use generate_fuel_Suc in blast)+

lemma checkDependents_fuel_Suc:
  "checkDependents k ans a s = Some r \<Longrightarrow> checkDependents (Suc k) ans a s = Some r"
proof (induction k arbitrary: a s r)
  case 0
  then show ?case by simp
next
  case (Suc k)
  have v: "visitDependent (Suc k) ans x s = Some r"
    if "visitDependent k ans x s = Some r" for x s r
    using that Suc.IH
    by (auto simp: visitDependent_def simp del: checkDependents.simps
             split: option.splits sum.splits if_splits)
  from Suc.prems show ?case
    unfolding checkDependents_Suc[of "Suc k"] checkDependents_Suc[of k]
    by (rule forEach_mono[rotated]) (rule v)
qed

lemma checkDependents_fuel_mono:
  "k \<le> k' \<Longrightarrow> checkDependents k ans a s = Some r \<Longrightarrow> checkDependents k' ans a s = Some r"
  by (induction k' rule: dec_induct) (use checkDependents_fuel_Suc in blast)+

lemma createAnalysisStructure_fuel_mono:
  assumes "k \<le> k'" and "createAnalysisStructure k nodes = Some r"
  shows "createAnalysisStructure k' nodes = Some r"
proof (cases "find (\<lambda>n. distance n = 0) nodes")
  case None
  with assms show ?thesis by (simp add: createAnalysisStructure_def)
next
  case (Some myNode)
  with assms(2) obtain y where y: "generateNode k nodes myNode ([], []) = Some y"
    by (cases "generateNode k nodes myNode ([], [])") (auto simp: createAnalysisStructure_def)
  from generateNode_fuel_mono[OF assms(1) y] y assms(2) Some show ?thesis
    by (simp add: createAnalysisStructure_def)
qed

lemma haltingPass_fuel_mono:
  assumes "k \<le> k'" and "haltingPass k ans rt a st = Some r"
  shows "haltingPass k' ans rt a st = Some r"
proof (cases "a = rt")
  case True
  with assms show ?thesis by (simp add: haltingPass_def)
next
  case False
  let ?h1 = "reset ans (fst st)"
  let ?s0 = "\<lparr>heap = ?h1[a := (?h1 ! a)\<lparr>live := False\<rparr>], deadNodes = []\<rparr>"
  from assms(2) False obtain y where y: "checkDependents k ans a ?s0 = Some y"
    by (cases "checkDependents k ans a ?s0") (auto simp: haltingPass_def Let_def)
  from checkDependents_fuel_mono[OF assms(1) y] y assms(2) False show ?thesis
    by (simp add: haltingPass_def Let_def)
qed

lemma haltingAnalysis_fuel_mono:
  assumes "k \<le> k'" and "haltingAnalysis k nodes n = Some r"
  shows "haltingAnalysis k' nodes n = Some r"
proof (cases "n = 1")
  case False
  with assms show ?thesis by (simp add: haltingAnalysis_def)
next
  case True
  from assms(2) True obtain y where y: "createAnalysisStructure k nodes = Some y"
    by (cases "createAnalysisStructure k nodes") (auto simp: haltingAnalysis_def)
  note y' = createAnalysisStructure_fuel_mono[OF assms(1) y]
  show ?thesis
  proof (cases y)
    case (Inl e)
    with assms(2) True y y' show ?thesis by (simp add: haltingAnalysis_def)
  next
    case (Inr str)
    let ?run = "\<lambda>j. forEach (haltingPass j (entries str) (root str)) (entries str) (objects str, [])"
    from assms(2) True y Inr obtain z where z: "?run k = Some z"
      by (cases "?run k") (auto simp: haltingAnalysis_def)
    have "?run k' = Some z"
      using z by (rule forEach_mono[rotated]) (rule haltingPass_fuel_mono[OF assms(1)])
    with z assms(2) True y y' Inr show ?thesis by (simp add: haltingAnalysis_def)
  qed
qed

subsection \<open>Which errors can be raised where\<close>

lemma forEach_error:
  "forEach f xs s = Some (Inl e) \<Longrightarrow> \<exists>x\<in>set xs. \<exists>s'. f x s' = Some (Inl e)"
proof (induction xs arbitrary: s)
  case Nil
  then show ?case by simp
next
  case (Cons x xs)
  then show ?case
    by (cases "f x s") (auto split: sum.splits)
qed

lemma generate_errors:
  "(generateNode k nodes nd st = Some (Inl e) \<longrightarrow> e \<noteq> NoHomeNode \<and> e \<noteq> UnsupportedOrder) \<and>
   (generateQuorumset k nodes qs entry st = Some (Inl e) \<longrightarrow>
      e \<noteq> NoHomeNode \<and> e \<noteq> UnsupportedOrder)"
proof (induction k arbitrary: nd st qs entry)
  case 0
  show ?case by simp
next
  case (Suc k)
  have A: "e \<noteq> NoHomeNode \<and> e \<noteq> UnsupportedOrder"
    if "generateNode (Suc k) nodes nd st = Some (Inl e)"
    using that Suc.IH
    by (auto simp: Let_def simp del: generateQuorumset.simps split: option.splits sum.splits)
  have vNested: "e \<noteq> NoHomeNode \<and> e \<noteq> UnsupportedOrder"
    if "visitNested k nodes entry x s = Some (Inl e)" for x s
    using that Suc.IH by (cases x) (auto simp: visitNested_def)
  have vName: "e \<noteq> NoHomeNode \<and> e \<noteq> UnsupportedOrder"
    if "visitName k nodes entry x s = Some (Inl e)" for x s
    using that Suc.IH
    by (auto simp: visitName_def Let_def split: option.splits sum.splits)
  have B: "e \<noteq> NoHomeNode \<and> e \<noteq> UnsupportedOrder"
    if "generateQuorumset (Suc k) nodes qs entry st = Some (Inl e)"
    using that vNested vName unfolding generateQuorumset_Suc
    by (auto split: if_splits dest!: forEach_error)
  from A B show ?case by blast
qed

lemma quorumSetMeetsThreshold_errors:
  "quorumSetMeetsThreshold ans q s = Inl e \<Longrightarrow> e = TypeError"
  "countDependencies ans ds t s = Inl e \<Longrightarrow> e = TypeError"
  by (induction ans q s and ans ds t s rule: quorumSetMeetsThreshold_countDependencies.induct)
     (auto split: sum.splits option.splits if_splits)

lemma checkDependents_errors:
  "checkDependents k ans a s = Some (Inl e) \<Longrightarrow> e = TypeError"
proof (induction k arbitrary: a s)
  case 0
  then show ?case by simp
next
  case (Suc k)
  have v: "e = TypeError" if "visitDependent k ans x s = Some (Inl e)" for x s
    using that Suc.IH
    by (auto simp: visitDependent_def split: option.splits sum.splits if_splits
             dest: quorumSetMeetsThreshold_errors)
  from Suc.prems show ?case
    unfolding checkDependents_Suc by (auto dest!: forEach_error dest: v)
qed

lemma haltingPass_errors:
  "haltingPass k ans rt a st = Some (Inl e) \<Longrightarrow> e = TypeError"
  by (auto simp: haltingPass_def Let_def split: if_splits option.splits sum.splits
           dest: checkDependents_errors)

lemma createAnalysisStructure_NoHomeNode:
  "(createAnalysisStructure fuel nodes = Some (Inl NoHomeNode)) =
     (\<forall>n\<in>set nodes. distance n \<noteq> 0)"
proof (cases "find (\<lambda>n. distance n = 0) nodes")
  case None
  then have "\<forall>n\<in>set nodes. distance n \<noteq> 0"
    by (auto simp: find_None_iff)
  with None show ?thesis by (simp add: createAnalysisStructure_def)
next
  case (Some myNode)
  then have "\<exists>n\<in>set nodes. distance n = 0"
    by (auto simp: find_Some_iff)
  moreover have "createAnalysisStructure fuel nodes \<noteq> Some (Inl NoHomeNode)"
    using Some generate_errors[of fuel nodes myNode "([], [])" NoHomeNode]
    by (auto simp: createAnalysisStructure_def split: option.splits sum.splits)
  ultimately show ?thesis by blast
qed

text \<open>From here on the recursive equations are unfolded by hand, one step at a time.\<close>

declare generateNode.simps(2) [simp del]
declare generateQuorumset.simps(2) [simp del]
declare checkDependents.simps(2) [simp del]

subsection \<open>The scenarios, run\<close>

lemma scenarioA_run: "haltingAnalysis 4 scenarioA 1 = Some (Inr [])"
  by code_simp

lemma scenarioB_run:
  "haltingAnalysis 4 scenarioB 1 =
     Some (Inr [\<lparr>vulnerableNodes = [leafNode ''A'' 1],
                 affectedNodes = [leafNode ''A'' 1, homeNode 1 [QName ''A'']]\<rparr>])"
  by code_simp

lemma scenarioCycle_run: "createAnalysisStructure 5 scenarioCycle = Some (Inr cycleStructure)"
  by code_simp

lemma cyclePass_run:
  "checkDependents 2 [0, 1] 1 (startPass [0, 1] 1 (objects cycleStructure)) =
     Some (Inr cyclePassEnd)"
  by code_simp

lemma mixedRequirement_run:
  "resolvable [0, 1] (heap (startPass [0, 1] 1 (objects cycleStructure))) (depNames mixedRequirement)"
  "satisfied (liveness [0, 1] (heap (startPass [0, 1] 1 (objects cycleStructure)))) mixedRequirement"
  "casualties [0, 1] (heap (startPass [0, 1] 1 (objects cycleStructure))) (depNames mixedRequirement)
     = [cycleB]"
  "deadNodes (startPass [0, 1] 1 (objects cycleStructure)) = []"
  by code_simp+

lemma scenarioB_structure: "createAnalysisStructure 4 scenarioB = Some (Inr structureB)"
  by code_simp

lemma scenarioB_names:
  "map node scenarioB = [''H'', ''A'', ''B'']" "entryNames structureB = [''H'', ''A'']"
  "entryObjects structureB = [homeNode 1 [QName ''A''], leafNode ''A'' 1]"
  by code_simp+

lemma scenarioA_structure: "createAnalysisStructure 4 scenarioA = Some (Inr structureA)"
  by code_simp

lemma scenarioA_passes:
  "passSparesHome 1 1 (objects structureA)"
  "passSparesHome 1 2 (heap (passEndA 1))"
  "passSparesHome 1 3 (heap (passEndA 2))"
  by code_simp+

lemma scenarioA_ends:
  "map name (objects structureA) = [''H'', ''A'', ''B'', ''C'']"
  "map live (heap (passEndA 1)) = [True, False, True, True]"
  "map live (heap (passEndA 2)) = [True, True, False, True]"
  "map live (heap (passEndA 3)) = [True, True, True, False]"
  "deadNodes (passEndA 1) = [leafNode ''A'' 1]"
  "deadNodes (passEndA 2) = [leafNode ''B'' 1]"
  "deadNodes (passEndA 3) = [leafNode ''C'' 1]"
  by code_simp+

subsection \<open>Graph construction never runs out of a large enough budget\<close>

lemma fold_max_ge: "x \<in> set xs \<Longrightarrow> (x::nat) \<le> fold max xs b"
  and fold_max_ge_base: "b \<le> fold max xs b"
proof -
  have "b \<le> fold max xs b \<and> (\<forall>x\<in>set xs. x \<le> fold max xs b)"
  proof (induction xs arbitrary: b)
    case Nil
    show ?case by simp
  next
    case (Cons y ys)
    from Cons.IH[of "max y b"] show ?case by auto
  qed
  then show "x \<in> set xs \<Longrightarrow> x \<le> fold max xs b" and "b \<le> fold max xs b" by auto
qed

lemma qdepth_sub: "QSet sub \<in> set (qset_v qs) \<Longrightarrow> qdepth sub < qdepth qs"
proof (cases qs)
  case (NetworkQuorumSet t vs)
  assume "QSet sub \<in> set (qset_v qs)"
  with NetworkQuorumSet have "edepth (QSet sub) \<in> set (map edepth vs)" by force
  from fold_max_ge[OF this, of 0] NetworkQuorumSet show ?thesis by simp
qed

lemma qdepth_pos: "0 < qdepth qs"
  by (cases qs) simp

lemma maxDepth_ge: "nd \<in> set nodes \<Longrightarrow> qdepth (qset nd) \<le> maxDepth nodes"
  unfolding maxDepth_def by (rule fold_max_ge) simp

lemma keys_update: "fst ` set (AList.update k v al) = insert k (fst ` set al)"
  by (induction al) auto

lemma generate_keys_mono:
  "(generateNode k nodes nd st = Some (Inr (a, st')) \<longrightarrow>
      fst ` set (snd st) \<subseteq> fst ` set (snd st')) \<and>
   (generateQuorumset k nodes qs entry st = Some (Inr st'') \<longrightarrow>
      fst ` set (snd st) \<subseteq> fst ` set (snd st''))"
proof (induction k arbitrary: nd st a st' qs entry st'')
  case 0
  show ?case by simp
next
  case (Suc k)
  have IH1: "fst ` set (snd st) \<subseteq> fst ` set (snd st')"
    if "generateNode k nodes nd st = Some (Inr (a, st'))" for nd st a st'
    using Suc.IH that by blast
  have IH2: "fst ` set (snd st) \<subseteq> fst ` set (snd st')"
    if "generateQuorumset k nodes qs entry st = Some (Inr st')" for qs entry st st'
    using Suc.IH that by blast
  have A: "fst ` set (snd st) \<subseteq> fst ` set (snd st')"
    if ev: "generateNode (Suc k) nodes nd st = Some (Inr (a, st'))"
    using ev
  proof (cases rule: generateNode_SucE)
    case cached
    then show ?thesis by simp
  next
    case fresh
    from IH2[OF fresh(3)] show ?thesis by (auto simp: allocate_def keys_update)
  qed
  have vNested: "fst ` set (snd s) \<subseteq> fst ` set (snd s')"
    if "visitNested k nodes entry x s = Some (Inr s')" for x s s'
    using that by (rule visitNestedE) (rule IH2)
  have vName: "fst ` set (snd s) \<subseteq> fst ` set (snd s')"
    if "visitName k nodes entry x s = Some (Inr s')" for x s s'
    using that
  proof (rule visitNameE)
    fix dn d h c
    assume "generateNode k nodes dn s = Some (Inr (d, h, c))" "s' = (addEdges entry d h, c)"
    with IH1[of dn s d "(h, c)"] show ?thesis by simp
  qed
  have B: "fst ` set (snd st) \<subseteq> fst ` set (snd st'')"
    if ev: "generateQuorumset (Suc k) nodes qs entry st = Some (Inr st'')"
    using ev
  proof (cases rule: generateQuorumset_SucE)
    case nested
    from nested(2) show ?thesis
    proof (rule forEach_invariant[where I = "\<lambda>s. fst ` set (snd st) \<subseteq> fst ` set (snd s)"])
      show "fst ` set (snd st) \<subseteq> fst ` set (snd s')"
        if "fst ` set (snd st) \<subseteq> fst ` set (snd s)"
          "visitNested k nodes entry x s = Some (Inr s')" for x s s'
        using that(1) vNested[OF that(2)] by blast
    qed simp
  next
    case names
    from names(2) show ?thesis
    proof (rule forEach_invariant[where I = "\<lambda>s. fst ` set (snd st) \<subseteq> fst ` set (snd s)"])
      show "fst ` set (snd st) \<subseteq> fst ` set (snd s')"
        if "fst ` set (snd st) \<subseteq> fst ` set (snd s)"
          "visitName k nodes entry x s = Some (Inr s')" for x s s'
        using that(1) vName[OF that(2)] by blast
    qed simp
  qed
  from A B show ?case by blast
qed

lemma generateNode_keys_mono:
  "generateNode k nodes nd st = Some (Inr (a, h, c)) \<Longrightarrow> fst ` set (snd st) \<subseteq> fst ` set c"
  using generate_keys_mono[where k = k and nodes = nodes and nd = nd and st = st and a = a
      and st' = "(h, c)"]
  by simp

lemma generateQuorumset_keys_mono:
  "generateQuorumset k nodes qs entry st = Some (Inr st') \<Longrightarrow>
     fst ` set (snd st) \<subseteq> fst ` set (snd st')"
  using generate_keys_mono[where k = k and nodes = nodes and qs = qs and entry = entry
      and st = st and st'' = st']
  by simp

lemma uncached_mono:
  "fst ` set c \<subseteq> fst ` set c' \<Longrightarrow> uncached nodes c' \<le> uncached nodes c"
  unfolding uncached_def by (intro card_mono) auto

lemma uncached_update:
  assumes "nd \<in> set nodes" and "map_of c (node nd) = None"
  shows "uncached nodes c = Suc (uncached nodes (AList.update (node nd) a c))"
proof -
  let ?U = "node ` set nodes - fst ` set c"
  from assms(2) have "node nd \<notin> fst ` set c"
    by (simp add: map_of_eq_None_iff)
  with assms(1) have in_U: "node nd \<in> ?U" by simp
  have "node ` set nodes - fst ` set (AList.update (node nd) a c) = ?U - {node nd}"
    by (auto simp: keys_update)
  moreover have "card ?U = Suc (card (?U - {node nd}))"
    by (rule card_Suc_Diff1[symmetric]) (use in_U in simp_all)
  ultimately show ?thesis by (simp add: uncached_def)
qed

lemma generate_enough_fuel:
  assumes D: "\<And>nd. nd \<in> set nodes \<Longrightarrow> qdepth (qset nd) \<le> D"
  shows "(nd \<in> set nodes \<longrightarrow> 1 + uncached nodes (snd st) * Suc D \<le> k \<longrightarrow>
            generateNode k nodes nd st \<noteq> None) \<and>
         (qdepth qs \<le> D \<longrightarrow> Suc (qdepth qs) + uncached nodes (snd st) * Suc D \<le> k \<longrightarrow>
            generateQuorumset k nodes qs entry st \<noteq> None)"
proof (induction k arbitrary: nd st qs entry)
  case 0
  show ?case by simp
next
  case (Suc k)
  have IH1: "generateNode k nodes nd st \<noteq> None"
    if "nd \<in> set nodes" "1 + uncached nodes (snd st) * Suc D \<le> k" for nd st
    using Suc.IH that by blast
  have IH2: "generateQuorumset k nodes qs entry st \<noteq> None"
    if "qdepth qs \<le> D" "Suc (qdepth qs) + uncached nodes (snd st) * Suc D \<le> k" for qs entry st
    using Suc.IH that by blast
  have A: "generateNode (Suc k) nodes nd st \<noteq> None"
    if nd: "nd \<in> set nodes" and le: "1 + uncached nodes (snd st) * Suc D \<le> Suc k"
  proof (cases "map_of (snd st) (node nd)")
    case None
    let ?a = "length (fst st)"
    from uncached_update[OF nd None, of ?a] le
    have "Suc D + uncached nodes (snd (allocate nd st)) * Suc D \<le> k"
      by (simp add: allocate_def)
    moreover have qD: "qdepth (qset nd) \<le> D" using D nd by simp
    ultimately have "Suc (qdepth (qset nd)) + uncached nodes (snd (allocate nd st)) * Suc D \<le> k"
      by simp
    from IH2[OF qD this, of ?a] obtain y where
      "generateQuorumset k nodes (qset nd) ?a (allocate nd st) = Some y" by auto
    with None show ?thesis by (cases y) (simp_all add: generateNode_Suc)
  next
    case (Some c)
    then show ?thesis by (simp add: generateNode_Suc)
  qed
  have B: "generateQuorumset (Suc k) nodes qs entry st \<noteq> None"
    if qD: "qdepth qs \<le> D" and le: "Suc (qdepth qs) + uncached nodes (snd st) * Suc D \<le> Suc k"
  proof -
    let ?I = "\<lambda>s. fst ` set (snd st) \<subseteq> fst ` set (snd s)"
    have U: "uncached nodes (snd s) * Suc D \<le> uncached nodes (snd st) * Suc D" if "?I s" for s
      using uncached_mono[OF that, of nodes] by (rule mult_le_mono1)
    have nested_total: "visitNested k nodes entry x s \<noteq> None"
      if "x \<in> set (qset_v qs)" "?I s" for x s
    proof (cases x)
      case (QName n)
      then show ?thesis by (simp add: visitNested_def)
    next
      case (QSet sub)
      with that(1) have "qdepth sub < qdepth qs" by (simp add: qdepth_sub)
      with le U[OF that(2)] qD
      have "qdepth sub \<le> D" "Suc (qdepth sub) + uncached nodes (snd s) * Suc D \<le> k" by linarith+
      from IH2[OF this] QSet show ?thesis by (simp add: visitNested_def)
    qed
    have name_total: "visitName k nodes entry x s \<noteq> None"
      if "x \<in> set (qset_v qs)" "?I s" for x s
    proof (cases "find (\<lambda>n. node n = toString x) nodes")
      case None
      then show ?thesis by (simp add: visitName_def)
    next
      case (Some dn)
      then have dn: "dn \<in> set nodes" by (auto simp: find_Some_iff)
      from le U[OF that(2)] qdepth_pos[of qs]
      have "1 + uncached nodes (snd s) * Suc D \<le> k" by linarith
      from IH1[OF dn this] obtain y where y: "generateNode k nodes dn s = Some y" by auto
      show ?thesis
      proof (cases y)
        case (Inl e)
        with Some y show ?thesis by (simp add: visitName_unfold)
      next
        case (Inr r)
        with Some y show ?thesis by (cases r) (simp add: visitName_unfold)
      qed
    qed
    have nested_keep: "?I s'" if "?I s" "visitNested k nodes entry x s = Some (Inr s')" for x s s'
      using that(2)
    proof (rule visitNestedE)
      fix sub assume "generateQuorumset k nodes sub entry s = Some (Inr s')"
      from generateQuorumset_keys_mono[OF this] that(1) show ?thesis by blast
    qed
    have name_keep: "?I s'" if "?I s" "visitName k nodes entry x s = Some (Inr s')" for x s s'
      using that(2)
    proof (rule visitNameE)
      fix dn d h c
      assume "generateNode k nodes dn s = Some (Inr (d, h, c))" "s' = (addEdges entry d h, c)"
      with generateNode_keys_mono[of k nodes dn s d h c] that(1) show ?thesis by auto
    qed
    have "forEach (visitNested k nodes entry) (qset_v qs) st \<noteq> None"
      by (rule forEach_total[where I = ?I]) (simp, erule (1) nested_total, erule (1) nested_keep)
    moreover have "forEach (visitName k nodes entry) (qset_v qs) st \<noteq> None"
      by (rule forEach_total[where I = ?I]) (simp, erule (1) name_total, erule (1) name_keep)
    ultimately show ?thesis
      by (simp add: generateQuorumset_Suc del: generateQuorumset.simps)
  qed
  from A B show ?case by blast
qed

lemma uncached_empty: "uncached nodes [] \<le> length nodes"
proof -
  have "card (node ` set nodes) \<le> card (set nodes)" by (rule card_image_le) simp
  also have "\<dots> \<le> length nodes" by (rule card_length)
  finally show ?thesis by (simp add: uncached_def)
qed

subsection \<open>The evaluator and the cascade\<close>

lemma resolvable_simps [simp]:
  "resolvable ans h []"
  "resolvable ans h (nm # nms) = (getNode ans h nm \<noteq> None \<and> resolvable ans h nms)"
  "resolvable ans h (xs @ ys) = (resolvable ans h xs \<and> resolvable ans h ys)"
  by (simp_all add: resolvable_def)

lemma casualties_simps [simp]:
  "casualties ans h [] = []"
  "casualties ans h (nm # nms) = casualty ans h nm @ casualties ans h nms"
  "casualties ans h (xs @ ys) = casualties ans h xs @ casualties ans h ys"
  by (simp_all add: casualties_def)

lemma quorumSetMeetsThreshold_char:
  "quorumSetMeetsThreshold ans q s =
     (if resolvable ans (heap s) (depNames q)
      then Inr (satisfied (liveness ans (heap s)) q,
                s\<lparr>deadNodes := deadNodes s @ casualties ans (heap s) (depNames q)\<rparr>)
      else Inl TypeError)"
  "countDependencies ans ds t s =
     (if resolvable ans (heap s) (depNamesList ds)
      then Inr (t - satisfiedEntries (liveness ans (heap s)) ds,
                s\<lparr>deadNodes := deadNodes s @ casualties ans (heap s) (depNamesList ds)\<rparr>)
      else Inl TypeError)"
proof (induction ans q s and ans ds t s rule: quorumSetMeetsThreshold_countDependencies.induct)
  case (1 ans t deps s)
  then show ?case by auto
next
  case (2 ans t s)
  show ?case by simp
next
  case (3 ans dependent ds t s)
  show ?case
  proof (cases "resolvable ans (heap s) (depNames dependent)")
    case False
    with 3(1) show ?thesis by simp
  next
    case True
    let ?s' = "s\<lparr>deadNodes := deadNodes s @ casualties ans (heap s) (depNames dependent)\<rparr>"
    let ?b = "satisfied (liveness ans (heap s)) dependent"
    from True 3(1) have q: "quorumSetMeetsThreshold ans dependent s = Inr (?b, ?s')" by simp
    from 3(2)[OF q refl]
    have "countDependencies ans ds (if ?b then t - 1 else t) ?s' =
       (if resolvable ans (heap s) (depNamesList ds)
        then Inr ((if ?b then t - 1 else t) - satisfiedEntries (liveness ans (heap s)) ds,
                  ?s'\<lparr>deadNodes := deadNodes ?s' @ casualties ans (heap s) (depNamesList ds)\<rparr>)
        else Inl TypeError)"
      by simp
    with q True show ?thesis by simp
  qed
next
  case (4 ans dependent ds t s)
  show ?case
  proof (cases "getNode ans (heap s) dependent")
    case None
    then show ?thesis by simp
  next
    case (Some a)
    then have lv: "liveness ans (heap s) dependent = live (heap s ! a)"
      by (simp add: liveness_def)
    show ?thesis
    proof (cases "live (heap s ! a)")
      case True
      with Some lv 4(1)[OF Some True] show ?thesis
        by (simp add: casualty_def)
    next
      case False
      with Some lv 4(2)[OF Some False] show ?thesis
        by (simp add: casualty_def)
    qed
  qed
qed

lemma quorumSetMeetsThreshold_heap:
  "quorumSetMeetsThreshold ans q s = Inr (b, s') \<Longrightarrow> heap s' = heap s"
  by (auto simp: quorumSetMeetsThreshold_char(1) split: if_splits)

lemma noRevival_refl: "noRevival h h"
  by (simp add: noRevival_def list_all2_same)

lemma noRevival_trans: "noRevival h1 h2 \<Longrightarrow> noRevival h2 h3 \<Longrightarrow> noRevival h1 h3"
  unfolding noRevival_def
  by (erule (1) list_all2_trans[rotated]) blast

lemma noRevival_kill: "noRevival h (h[a := (h ! a)\<lparr>live := False\<rparr>])"
proof -
  have "live (h[a := (h ! a)\<lparr>live := False\<rparr>] ! i) \<longrightarrow> live (h ! i)" if "i < length h" for i
    using that by (cases "i = a") simp_all
  then show ?thesis by (simp add: noRevival_def list_all2_conv_all_nth)
qed

lemma noRevival_markDead: "noRevival (heap s) (heap (markDead a s))"
  by (simp add: markDead_def Let_def noRevival_kill)

lemma checkDependents_noRevival:
  "checkDependents k ans a s = Some (Inr s') \<Longrightarrow> noRevival (heap s) (heap s')"
proof (induction k arbitrary: a s s')
  case 0
  then show ?case by simp
next
  case (Suc k)
  have step: "noRevival (heap s0) (heap s2)"
    if inv: "noRevival (heap s0) (heap s1)" and v: "visitDependent k ans x s1 = Some (Inr s2)"
    for s0 :: pass and x s1 s2
  proof (cases "getNode ans (heap s1) x")
    case None
    with v show ?thesis by (simp add: visitDependent_def)
  next
    case (Some j)
    show ?thesis
    proof (cases "live (heap s1 ! j)")
      case False
      with Some v inv show ?thesis by (simp add: visitDependent_def)
    next
      case True
      show ?thesis
      proof (cases "quorumSetMeetsThreshold ans (quorumSet (heap s1 ! j)) s1")
        case (Inl e)
        with Some True v show ?thesis by (simp add: visitDependent_def)
      next
        case (Inr r)
        obtain ok s3 where r: "r = (ok, s3)" by (cases r)
        from Inr r have h3: "heap s3 = heap s1" by (simp add: quorumSetMeetsThreshold_heap)
        show ?thesis
        proof (cases ok)
          case True
          with Some \<open>live (heap s1 ! j)\<close> Inr r v have "s2 = s3" by (simp add: visitDependent_def)
          with h3 inv show ?thesis by simp
        next
          case False
          with Some \<open>live (heap s1 ! j)\<close> Inr r v
          have "checkDependents k ans j (markDead j s3) = Some (Inr s2)"
            by (simp add: visitDependent_def)
          from Suc.IH[OF this] have "noRevival (heap (markDead j s3)) (heap s2)" .
          with noRevival_markDead[of s3 j] have "noRevival (heap s3) (heap s2)"
            by (rule noRevival_trans)
          with inv h3 show ?thesis by (auto intro: noRevival_trans)
        qed
      qed
    qed
  qed
  from Suc.prems have "forEach (visitDependent k ans) (dependentsNames (heap s ! a)) s = Some (Inr s')"
    by (simp add: checkDependents_Suc)
  then show ?case
    by (rule forEach_invariant[where I = "\<lambda>s1. noRevival (heap s) (heap s1)"])
       (simp add: noRevival_refl, erule (1) step)
qed

lemma haltingPass_startPass:
  "haltingPass fuel ans rt nodeToHalt st =
     (if nodeToHalt = rt then Some (Inr st)
      else case checkDependents fuel ans nodeToHalt (startPass ans nodeToHalt (fst st)) of
             None \<Rightarrow> None
           | Some (Inl e) \<Rightarrow> Some (Inl e)
           | Some (Inr s1) \<Rightarrow>
               if \<not> live (heap s1 ! rt) then
                 Some (Inr (heap s1, snd st @
                   [\<lparr>vulnerableNodes = [networkObject (heap s1 ! nodeToHalt)],
                     affectedNodes = uniq (deadNodes s1)\<rparr>]))
               else Some (Inr (heap s1, snd st)))"
  unfolding haltingPass_def startPass_def Let_def ..

lemma passSparesHome_fuel_mono:
  assumes "k \<le> k'" and "passSparesHome k c h"
  shows "passSparesHome k' c h"
proof -
  let ?ans = "entries structureA"
  let ?s0 = "startPass ?ans c h"
  from assms(2) have cd: "checkDependents k ?ans c ?s0 = Some (Inr (passEndA c))"
    and hp: "haltingPass k ?ans (root structureA) c (h, []) = Some (Inr (heap (passEndA c), []))"
    by (simp_all add: passSparesHome_def Let_def)
  note cd' = checkDependents_fuel_mono[OF assms(1) cd]
  note hp' = haltingPass_fuel_mono[OF assms(1) hp]
  from assms(2) cd' hp' show ?thesis by (simp add: passSparesHome_def Let_def)
qed

subsection \<open>Classification by the first element and by variant agree on well-typed input\<close>

lemma generateQuorumsetTagged_Suc:
  "generateQuorumsetTagged (Suc k) nodes qs entry st = forEach (visitTagged k nodes entry) (qset_v qs) st"
  unfolding generateQuorumsetTagged.simps visitTagged_def ..

declare generateNodeTagged.simps(2) [simp del]
declare generateQuorumsetTagged.simps(2) [simp del]

lemma isNested_names: "list_all isName vs \<Longrightarrow> vs \<noteq> [] \<Longrightarrow> \<not> isNested vs"
  by (cases vs rule: isNested.cases) simp_all

lemma isNested_sets:
  "list_all (\<lambda>x. case x of QSet sub \<Rightarrow> P sub | QName _ \<Rightarrow> False) vs \<Longrightarrow> isNested vs"
  by (cases vs rule: isNested.cases) simp_all

lemma tagged_refines:
  assumes wt: "\<And>nd. nd \<in> set nodes \<Longrightarrow> wellTyped (qset nd)"
  shows "(nd \<in> set nodes \<longrightarrow> generateNode k nodes nd st = generateNodeTagged k nodes nd st) \<and>
         (wellTyped qs \<longrightarrow>
            generateQuorumset k nodes qs entry st = generateQuorumsetTagged k nodes qs entry st)"
proof (induction k arbitrary: nd st qs entry)
  case 0
  show ?case by simp
next
  case (Suc k)
  have IH1: "generateNode k nodes nd st = generateNodeTagged k nodes nd st"
    if "nd \<in> set nodes" for nd st
    using Suc.IH that by blast
  have IH2: "generateQuorumset k nodes qs entry st = generateQuorumsetTagged k nodes qs entry st"
    if "wellTyped qs" for qs entry st
    using Suc.IH that by blast
  have A: "generateNode (Suc k) nodes nd st = generateNodeTagged (Suc k) nodes nd st"
    if "nd \<in> set nodes"
  proof -
    have e: "generateQuorumset k nodes (qset nd) (length (fst st)) (allocate nd st) =
          generateQuorumsetTagged k nodes (qset nd) (length (fst st)) (allocate nd st)"
      by (rule IH2[OF wt[OF that]])
    show ?thesis unfolding generateNode_Suc generateNodeTagged.simps e ..
  qed
  have B: "generateQuorumset (Suc k) nodes qs entry st =
           generateQuorumsetTagged (Suc k) nodes qs entry st" if w: "wellTyped qs"
  proof -
    obtain t vs where qs: "qs = NetworkQuorumSet t vs" by (cases qs)
    have name_step: "visitName k nodes entry x s = visitTagged k nodes entry x s"
      if "isName x" for x s
    proof (cases x)
      case (QName n)
      show ?thesis
      proof (cases "find (\<lambda>m. node m = n) nodes")
        case None
        with QName show ?thesis by (simp add: visitName_unfold visitTagged_def)
      next
        case (Some dn)
        then have "dn \<in> set nodes" by (auto simp: find_Some_iff)
        from IH1[OF this] QName Some show ?thesis
          by (simp add: visitName_unfold visitTagged_def)
      qed
    next
      case (QSet sub)
      with that show ?thesis by simp
    qed
    have set_step: "visitNested k nodes entry x s = visitTagged k nodes entry x s"
      if "case x of QSet sub \<Rightarrow> wellTyped sub | QName _ \<Rightarrow> False" for x s
      using that IH2 by (cases x) (simp_all add: visitNested_def visitTagged_def)
    show ?thesis
    proof (cases "isNested vs")
      case True
      have "list_all (\<lambda>x. case x of QSet sub \<Rightarrow> wellTyped sub | QName _ \<Rightarrow> False) vs"
      proof (cases "vs = []")
        case False
        with True w qs isNested_names[of vs] show ?thesis by auto
      qed simp
      then have "forEach (visitNested k nodes entry) vs st = forEach (visitTagged k nodes entry) vs st"
        by (intro forEach_cong set_step) (simp add: list_all_iff)
      with True qs show ?thesis
        by (simp add: generateQuorumset_Suc generateQuorumsetTagged_Suc)
    next
      case False
      with w qs isNested_sets[of wellTyped vs] have "list_all isName vs" by auto
      then have "forEach (visitName k nodes entry) vs st = forEach (visitTagged k nodes entry) vs st"
        by (intro forEach_cong name_step) (simp add: list_all_iff)
      with False qs show ?thesis
        by (simp add: generateQuorumset_Suc generateQuorumsetTagged_Suc)
    qed
  qed
  from A B show ?case by blast
qed

lemma tagged_no_TypeError:
  "generateNodeTagged k nodes nd st \<noteq> Some (Inl TypeError) \<and>
   generateQuorumsetTagged k nodes qs entry st \<noteq> Some (Inl TypeError)"
proof (induction k arbitrary: nd st qs entry)
  case 0
  show ?case by simp
next
  case (Suc k)
  have IH1: "generateNodeTagged k nodes nd st \<noteq> Some (Inl TypeError)" for nd st
    using Suc.IH by blast
  have IH2: "generateQuorumsetTagged k nodes qs entry st \<noteq> Some (Inl TypeError)" for qs entry st
    using Suc.IH by blast
  have A: "generateNodeTagged (Suc k) nodes nd st \<noteq> Some (Inl TypeError)"
  proof (cases "map_of (snd st) (node nd)")
    case None
    with IH2[of "qset nd" "length (fst st)" "allocate nd st"] show ?thesis
      by (cases "generateQuorumsetTagged k nodes (qset nd) (length (fst st)) (allocate nd st)")
         (auto simp: generateNodeTagged.simps split: sum.splits)
  next
    case (Some a)
    then show ?thesis by (simp add: generateNodeTagged.simps)
  qed
  have v: "visitTagged k nodes entry x s \<noteq> Some (Inl TypeError)" for x s
  proof (cases x)
    case (QSet sub)
    with IH2 show ?thesis by (simp add: visitTagged_def)
  next
    case (QName n)
    show ?thesis
    proof (cases "find (\<lambda>m. node m = n) nodes")
      case None
      with QName show ?thesis by (simp add: visitTagged_def)
    next
      case (Some dn)
      with QName IH1[of dn s] show ?thesis
        by (cases "generateNodeTagged k nodes dn s")
           (auto simp: visitTagged_def split: sum.splits)
    qed
  qed
  have B: "generateQuorumsetTagged (Suc k) nodes qs entry st \<noteq> Some (Inl TypeError)"
  proof
    assume "generateQuorumsetTagged (Suc k) nodes qs entry st = Some (Inl TypeError)"
    then have "forEach (visitTagged k nodes entry) (qset_v qs) st = Some (Inl TypeError)"
      by (simp add: generateQuorumsetTagged_Suc)
    from forEach_error[OF this] v show False by blast
  qed
  from A B show ?case by blast
qed

subsection \<open>What graph construction builds\<close>

lemma signature_length [simp]: "length (signature h) = length h"
  by (simp add: signature_def)

lemma signature_names: "map fst (signature h) = map name h"
  by (simp add: signature_def)

lemma signature_nth: "i < length h \<Longrightarrow> signature h ! i = (name (h ! i), networkObject (h ! i))"
  by (simp add: signature_def)

lemma signature_update:
  assumes "name x = name (h ! a)" and "networkObject x = networkObject (h ! a)"
  shows "signature (h[a := x]) = signature h"
proof (rule nth_equalityI)
  show "length (signature (h[a := x])) = length (signature h)" by simp
  show "signature (h[a := x]) ! i = signature h ! i" if "i < length (signature (h[a := x]))" for i
    using that assms by (cases "i = a") (simp_all add: signature_nth)
qed

lemma signature_addEdges [simp]: "signature (addEdges entry d h) = signature h"
  by (simp add: addEdges_def Let_def pushDependency_def pushDependent_def signature_update)

lemma length_addEdges [simp]: "length (addEdges entry d h) = length h"
  by (simp add: addEdges_def Let_def pushDependency_def pushDependent_def)

lemma name_addEdges: "i < length h \<Longrightarrow> name (addEdges entry d h ! i) = name (h ! i)"
proof -
  assume i: "i < length h"
  then have "signature (addEdges entry d h) ! i =
               (name (addEdges entry d h ! i), networkObject (addEdges entry d h ! i))"
    by (simp add: signature_nth del: signature_addEdges)
  moreover have "signature (addEdges entry d h) ! i = (name (h ! i), networkObject (h ! i))"
    using i by (simp add: signature_nth)
  ultimately show ?thesis by simp
qed

lemma signature_allocate:
  "signature (fst (allocate nd st)) = signature (fst st) @ [(node nd, nd)]"
  by (simp add: allocate_def signature_def newEntry_def)

lemma update_fresh: "k \<notin> fst ` set al \<Longrightarrow> AList.update k v al = al @ [(k, v)]"
  by (induction al) auto

lemma closedIn_mono:
  assumes "closedIn sg i" and "i < length sg"
  shows "closedIn (sg @ ys) i"
  using assms by (auto simp: closedIn_def nth_append)

lemma extends_refl: "extends st st"
  by (auto simp: extends_def)

lemma extends_trans:
  assumes "extends s1 s2" and "extends s2 s3"
  shows "extends s1 s3"
proof -
  from assms obtain ys zs where
    ys: "signature (fst s2) = signature (fst s1) @ ys" and
    zs: "signature (fst s3) = signature (fst s2) @ zs"
    by (auto simp: extends_def)
  have l12: "length (fst s1) \<le> length (fst s2)"
    using arg_cong[OF ys, of length] by simp
  have "closedIn (signature (fst s3)) i" if "length (fst s1) \<le> i" "i < length (fst s3)" for i
  proof (cases "i < length (fst s2)")
    case True
    with that assms(1) have "closedIn (signature (fst s2)) i" by (simp add: extends_def)
    with True show ?thesis unfolding zs by (intro closedIn_mono) simp_all
  next
    case False
    with that assms(2) show ?thesis by (simp add: extends_def)
  qed
  with ys zs show ?thesis by (simp add: extends_def)
qed

lemma extends_names:
  "extends st st' \<Longrightarrow> name ` set (fst st) \<subseteq> name ` set (fst st')"
proof -
  assume "extends st st'"
  then obtain ys where "signature (fst st') = signature (fst st) @ ys" by (auto simp: extends_def)
  then have "map fst (signature (fst st')) = map fst (signature (fst st)) @ map fst ys" by simp
  then have "set (map name (fst st)) \<subseteq> set (map name (fst st'))"
    unfolding signature_names by (metis set_append Un_upper1)
  then show ?thesis by simp
qed


lemma consistent_lookup_None:
  assumes "consistent nodes st" and "map_of (snd st) k = None"
  shows "k \<notin> name ` set (fst st)"
proof -
  from assms(1) have c: "snd st = zip (map name (fst st)) [0..<length (fst st)]"
    by (simp add: consistent_def Let_def signature_names)
  from assms(2) have "k \<notin> set (map name (fst st))"
    unfolding c by (subst (asm) map_of_zip_is_None) simp_all
  then show ?thesis by simp
qed

lemma consistent_lookup_Some:
  assumes "consistent nodes st" and "map_of (snd st) k = Some a"
  shows "a < length (fst st) \<and> name (fst st ! a) = k"
proof -
  from assms(1) have c: "snd st = zip (map name (fst st)) [0..<length (fst st)]"
    by (simp add: consistent_def Let_def signature_names)
  from assms(2) have "(k, a) \<in> set (zip (map name (fst st)) [0..<length (fst st)])"
    unfolding c by (rule map_of_SomeD)
  then obtain i where "i < length (fst st)" "map name (fst st) ! i = k" "[0..<length (fst st)] ! i = a"
    by (auto simp: set_zip)
  then show ?thesis by simp
qed

lemma consistent_signature:
  assumes "consistent nodes (h, c)" and "signature h' = signature h"
  shows "consistent nodes (h', c)"
  using assms by (simp add: consistent_def Let_def)

lemma consistent_allocate:
  assumes con: "consistent nodes st" and none: "map_of (snd st) (node nd) = None"
    and nd: "nd \<in> set nodes" and r: "node nd \<in> reachable nodes"
  shows "consistent nodes (allocate nd st)"
proof -
  let ?sg = "signature (fst st)"
  from con have c: "snd st = zip (map fst ?sg) [0..<length ?sg]"
    and d: "distinct (map fst ?sg)"
    and o: "\<forall>p\<in>set ?sg. snd p \<in> set nodes \<and> node (snd p) = fst p"
    and rs: "fst ` set ?sg \<subseteq> reachable nodes"
    by (simp_all add: consistent_def Let_def)
  from consistent_lookup_None[OF con none] have fresh: "node nd \<notin> fst ` set ?sg"
    using signature_names[of "fst st"] by (metis list.set_map)
  then have fresh': "node nd \<notin> fst ` set (snd st)"
    unfolding c by (metis fresh length_map length_upt map_fst_zip minus_nat.diff_0 list.set_map)
  have "snd (allocate nd st) = snd st @ [(node nd, length (fst st))]"
    using update_fresh[OF fresh'] by (simp add: allocate_def)
  also have "\<dots> = zip (map fst (?sg @ [(node nd, nd)])) [0..<length (?sg @ [(node nd, nd)])]"
    unfolding c by simp
  finally have c': "snd (allocate nd st) =
      zip (map fst (signature (fst (allocate nd st)))) [0..<length (signature (fst (allocate nd st)))]"
    unfolding signature_allocate .
  have d': "distinct (map fst (?sg @ [(node nd, nd)]))" using d fresh by simp
  have o': "\<forall>p\<in>set (?sg @ [(node nd, nd)]). snd p \<in> set nodes \<and> node (snd p) = fst p"
    using o nd by simp
  have r': "fst ` set (?sg @ [(node nd, nd)]) \<subseteq> reachable nodes" using rs r by simp
  from c' d' o' r' show ?thesis
    unfolding consistent_def Let_def signature_allocate by blast
qed

lemma find_distinct_id:
  assumes "distinct (map node nodes)" and "nd \<in> set nodes"
  shows "find (\<lambda>n. node n = node nd) nodes = Some nd"
  using assms
proof (induction nodes)
  case Nil
  then show ?case by simp
next
  case (Cons x xs)
  show ?case
  proof (cases "node x = node nd")
    case True
    with Cons.prems have "x = nd" by (auto simp: image_iff)
    then show ?thesis by simp
  next
    case False
    with Cons show ?thesis by auto
  qed
qed

lemma references_nested:
  "QSet sub \<in> set vs \<Longrightarrow> set (references sub) \<subseteq> set (nestedReferences vs)"
proof (induction vs)
  case Nil
  then show ?case by simp
next
  case (Cons x xs)
  then show ?case by (cases x) auto
qed

lemma nestedReferences_covered:
  assumes "\<forall>x\<in>set vs. case x of QSet sub \<Rightarrow> set (references sub) \<subseteq> A | QName _ \<Rightarrow> True"
  shows "set (nestedReferences vs) \<subseteq> A"
  using assms
proof (induction vs)
  case Nil
  then show ?case by simp
next
  case (Cons x xs)
  then show ?case by (cases x) auto
qed


lemma generate_consistent:
  assumes ids: "distinct (map node nodes)"
  shows "(generateNode k nodes nd st = Some (Inr (a, st')) \<longrightarrow>
            consistent nodes st \<longrightarrow> nd \<in> set nodes \<longrightarrow> node nd \<in> reachable nodes \<longrightarrow>
            consistent nodes st' \<and> extends st st' \<and>
            a < length (fst st') \<and> name (fst st' ! a) = node nd) \<and>
         (generateQuorumset k nodes qs entry st = Some (Inr st'') \<longrightarrow>
            consistent nodes st \<longrightarrow> set (references qs) \<subseteq> reachable nodes \<longrightarrow>
            consistent nodes st'' \<and> extends st st'' \<and>
            set (references qs) \<subseteq> name ` set (fst st''))"
proof (induction k arbitrary: nd st a st' qs entry st'')
  case 0
  show ?case by simp
next
  case (Suc k)
  have IH1: "consistent nodes st' \<and> extends st st' \<and>
             a < length (fst st') \<and> name (fst st' ! a) = node nd"
    if "generateNode k nodes nd st = Some (Inr (a, st'))" "consistent nodes st"
       "nd \<in> set nodes" "node nd \<in> reachable nodes" for nd st a st'
    using Suc.IH that by blast
  have IH2: "consistent nodes st' \<and> extends st st' \<and>
             set (references qs) \<subseteq> name ` set (fst st')"
    if "generateQuorumset k nodes qs entry st = Some (Inr st')" "consistent nodes st"
       "set (references qs) \<subseteq> reachable nodes" for qs entry st st'
    using Suc.IH that by blast
  have A: "consistent nodes st' \<and> extends st st' \<and>
           a < length (fst st') \<and> name (fst st' ! a) = node nd"
    if ev: "generateNode (Suc k) nodes nd st = Some (Inr (a, st'))"
      and con: "consistent nodes st" and nd: "nd \<in> set nodes"
      and r: "node nd \<in> reachable nodes"
    using ev
  proof (cases rule: generateNode_SucE)
    case cached
    with consistent_lookup_Some[OF con cached(1)] con show ?thesis
      by (simp add: extends_refl)
  next
    case fresh
    let ?st1 = "allocate nd st"
    have con1: "consistent nodes ?st1" by (rule consistent_allocate[OF con fresh(1) nd r])
    have refs: "set (references (qset nd)) \<subseteq> reachable nodes"
      using reachable.step[OF r find_distinct_id[OF ids nd]] by blast
    from IH2[OF fresh(3) con1 refs]
    have con': "consistent nodes st'" and ext1: "extends ?st1 st'"
      and cov: "set (references (qset nd)) \<subseteq> name ` set (fst st')" by simp_all
    from ext1 obtain ys where
      sg: "signature (fst st') = (signature (fst st) @ [(node nd, nd)]) @ ys"
      and cl: "\<And>i. length (fst ?st1) \<le> i \<Longrightarrow> i < length (fst st') \<Longrightarrow>
                 closedIn (signature (fst st')) i"
      unfolding extends_def signature_allocate by blast
    have len: "length (fst st') = length (fst st) + 1 + length ys"
      using arg_cong[OF sg, of length] by simp
    have ath: "signature (fst st') ! a = (node nd, nd)"
      unfolding sg fresh(2) by (simp add: nth_append)
    have alt: "a < length (fst st')" using len fresh(2) by simp
    from ath alt have nm: "name (fst st' ! a) = node nd" and ob: "networkObject (fst st' ! a) = nd"
      by (simp_all add: signature_nth)
    have names: "fst ` set (signature (fst st')) = name ` set (fst st')"
      using signature_names[of "fst st'"] by (metis list.set_map)
    have cla: "closedIn (signature (fst st')) a"
      unfolding closedIn_def ath names using cov by simp
    have "closedIn (signature (fst st')) i" if "length (fst st) \<le> i" "i < length (fst st')" for i
    proof (cases "i = a")
      case True
      with cla show ?thesis by simp
    next
      case False
      with that fresh(2) have "length (fst ?st1) \<le> i" by (simp add: allocate_def)
      from cl[OF this that(2)] show ?thesis .
    qed
    moreover have "\<exists>zs. signature (fst st') = signature (fst st) @ zs" using sg by simp
    ultimately have "extends st st'" unfolding extends_def by blast
    with con' alt nm show ?thesis by simp
  qed
  have B: "consistent nodes st'' \<and> extends st st'' \<and>
           set (references qs) \<subseteq> name ` set (fst st'')"
    if ev: "generateQuorumset (Suc k) nodes qs entry st = Some (Inr st'')"
      and con: "consistent nodes st" and refs: "set (references qs) \<subseteq> reachable nodes"
  proof -
    obtain t vs where qs: "qs = NetworkQuorumSet t vs" by (cases qs)
    from ev show ?thesis
    proof (cases rule: generateQuorumset_SucE)
      case nested
      let ?R = "\<lambda>x (s :: store \<times> entryCache).
                  case x of QSet sub \<Rightarrow> set (references sub) \<subseteq> name ` set (fst s)
                          | QName _ \<Rightarrow> True"
      from nested(1) qs have rq: "references qs = nestedReferences vs" by simp
      have "consistent nodes st'' \<and> extends st st'' \<and> (\<forall>x\<in>set (qset_v qs). ?R x st'')"
        using nested(2) con
      proof (rule forEach_post[where E = extends])
        fix x s s'
        assume x: "x \<in> set (qset_v qs)" and cs: "consistent nodes s"
          and v: "visitNested k nodes entry x s = Some (Inr s')"
        from v show "consistent nodes s' \<and> extends s s' \<and> ?R x s'"
        proof (rule visitNestedE)
          fix sub assume sub: "x = QSet sub"
            and g: "generateQuorumset k nodes sub entry s = Some (Inr s')"
          from x sub qs have "set (references sub) \<subseteq> set (nestedReferences vs)"
            by (simp add: references_nested)
          with refs rq have "set (references sub) \<subseteq> reachable nodes" by simp
          from IH2[OF g cs this] sub show ?thesis by simp
        qed
      next
        fix x and s s' :: "store \<times> entryCache"
        assume "?R x s" "extends s s'"
        then show "?R x s'"
          using extends_names[of s s'] by (cases x) auto
      qed (rule extends_refl, erule (1) extends_trans)
      moreover from this qs have "set (nestedReferences vs) \<subseteq> name ` set (fst st'')"
        by (intro nestedReferences_covered) simp
      ultimately show ?thesis using rq by simp
    next
      case names
      let ?R = "\<lambda>x (s :: store \<times> entryCache). toString x \<in> name ` set (fst s)"
      from names(1) qs have rq: "references qs = map toString vs" by simp
      have "consistent nodes st'' \<and> extends st st'' \<and> (\<forall>x\<in>set (qset_v qs). ?R x st'')"
        using names(2) con
      proof (rule forEach_post[where E = extends])
        fix x s s'
        assume x: "x \<in> set (qset_v qs)" and cs: "consistent nodes s"
          and v: "visitName k nodes entry x s = Some (Inr s')"
        from v show "consistent nodes s' \<and> extends s s' \<and> ?R x s'"
        proof (rule visitNameE)
          fix dn d h c
          assume f: "find (\<lambda>n. node n = toString x) nodes = Some dn"
            and g: "generateNode k nodes dn s = Some (Inr (d, h, c))"
            and s': "s' = (addEdges entry d h, c)"
          from f have dn: "dn \<in> set nodes" "node dn = toString x"
            by (auto simp: find_Some_iff)
          from x qs rq refs dn(2) have "node dn \<in> reachable nodes" by auto
          from IH1[OF g cs dn(1) this]
          have c1: "consistent nodes (h, c)" and e1: "extends s (h, c)"
            and d: "d < length h" "name (h ! d) = node dn" by simp_all
          have c2: "consistent nodes s'"
            unfolding s' by (rule consistent_signature[OF c1]) simp
          have e2: "extends s s'"
            using e1 unfolding s' extends_def by simp
          have "name (addEdges entry d h ! d) = node dn"
            using d by (simp add: name_addEdges)
          with d(1) have "node dn \<in> name ` set (addEdges entry d h)"
            by (metis length_addEdges nth_mem image_eqI)
          with c2 e2 dn(2) s' show ?thesis by simp
        qed
      next
        fix x and s s' :: "store \<times> entryCache"
        assume "?R x s" "extends s s'"
        then show "?R x s'"
          using extends_names[of s s'] by auto
      qed (rule extends_refl, erule (1) extends_trans)
      with rq qs show ?thesis by auto
    qed
  qed
  from A B show ?case by blast
qed

lemma construction_result:
  assumes ids: "distinct (map node nodes)"
    and run: "createAnalysisStructure fuel nodes = Some (Inr str)"
  shows "entries str = [0..<length (objects str)]"
    and "distinct (map name (objects str))"
    and "name ` set (objects str) = reachable nodes"
    and "\<And>n. n \<in> set (objects str) \<Longrightarrow>
           networkObject n \<in> set nodes \<and> node (networkObject n) = name n"
proof -
  from run obtain myNode r h c where
    home: "find (\<lambda>n. distance n = 0) nodes = Some myNode"
    and gen: "generateNode fuel nodes myNode ([], []) = Some (Inr (r, h, c))"
    and str: "str = \<lparr>root = r, entries = map snd c, objects = h\<rparr>"
    by (rule createAnalysisStructureE)
  have c0: "consistent nodes ([], [])" by (simp add: consistent_def signature_def)
  from home have my: "myNode \<in> set nodes" by (auto simp: find_Some_iff)
  have rmy: "node myNode \<in> reachable nodes" by (rule reachable.home[OF home])
  from generate_consistent[OF ids, of fuel myNode "([], [])" r "(h, c)"] gen c0 my rmy
  have con: "consistent nodes (h, c)" and ext: "extends ([], []) (h, c)"
    and r: "r < length h" "name (h ! r) = node myNode" by simp_all
  from con have c: "c = zip (map name h) [0..<length h]"
    and d: "distinct (map name h)"
    and o: "\<forall>p\<in>set (signature h). snd p \<in> set nodes \<and> node (snd p) = fst p"
    and sub: "fst ` set (signature h) \<subseteq> reachable nodes"
    by (simp_all add: consistent_def Let_def signature_names)
  have "set (map fst (signature h)) = set (map name h)"
    by (simp only: signature_names)
  then have names: "fst ` set (signature h) = name ` set h" by simp
  from ext have closed: "closedIn (signature h) i" if "i < length h" for i
    using that by (simp add: extends_def)
  have oh: "objects str = h" by (simp add: str)
  show "entries str = [0..<length (objects str)]"
    unfolding str c by simp
  show "distinct (map name (objects str))" using d by (simp only: oh)
  have obj: "networkObject n \<in> set nodes \<and> node (networkObject n) = name n" if "n \<in> set h" for n
  proof -
    from that have "(\<lambda>m. (name m, networkObject m)) n \<in> (\<lambda>m. (name m, networkObject m)) ` set h"
      by (rule imageI)
    then have "(name n, networkObject n) \<in> set (signature h)"
      by (simp only: signature_def set_map)
    from bspec[OF o this] show ?thesis by simp
  qed
  show "networkObject n \<in> set nodes \<and> node (networkObject n) = name n"
    if "n \<in> set (objects str)" for n
    using that obj unfolding oh by blast
  have sup: "b \<in> name ` set h" if "b \<in> reachable nodes" for b
    using that
  proof (induction rule: reachable.induct)
    case (home m)
    with \<open>find (\<lambda>n. distance n = 0) nodes = Some myNode\<close> have m: "m = myNode" by simp
    have "h ! r \<in> set h" using r(1) by simp
    then have "name (h ! r) \<in> name ` set h" by (rule imageI)
    with r(2) m show ?case by simp
  next
    case (step a nd b)
    from step.IH obtain n where n: "n \<in> set h" "name n = a" by blast
    then obtain i where i: "i < length h" "h ! i = n" by (auto simp: in_set_conv_nth)
    from obj[OF n(1)] n(2) have oi: "networkObject n \<in> set nodes" "node (networkObject n) = a"
      by simp_all
    from find_distinct_id[OF ids oi(1)] oi(2) step.hyps(2) have nd: "nd = networkObject n"
      by simp
    from closed[OF i(1)] have "set (references (qset (snd (signature h ! i)))) \<subseteq> fst ` set (signature h)"
      by (simp only: closedIn_def)
    then have "set (references (qset (networkObject n))) \<subseteq> name ` set h"
      unfolding names using i by (simp add: signature_nth)
    with step.hyps(3) nd show ?case by blast
  qed
  have "name ` set h \<subseteq> reachable nodes" using sub unfolding names .
  with sup have "name ` set h = reachable nodes" by blast
  then show "name ` set (objects str) = reachable nodes" by (simp only: oh)
qed

subsection \<open>A valid input is built without an error\<close>

lemma wellTyped_nested:
  assumes "wellTyped qs" and "isNested (qset_v qs)" and "x \<in> set (qset_v qs)"
  obtains sub where "x = QSet sub" "wellTyped sub"
proof -
  obtain t vs where qs: "qs = NetworkQuorumSet t vs" by (cases qs)
  have "list_all (\<lambda>x. case x of QSet sub \<Rightarrow> wellTyped sub | QName _ \<Rightarrow> False) vs"
  proof (cases "list_all isName vs")
    case True
    with assms(2) qs isNested_names[of vs] have "vs = []" by auto
    then show ?thesis by simp
  next
    case False
    with assms(1) qs show ?thesis by simp
  qed
  with assms(3) qs have "case x of QSet sub \<Rightarrow> wellTyped sub | QName _ \<Rightarrow> False"
    by (simp add: list_all_iff)
  with that show ?thesis by (cases x) simp_all
qed

lemma generate_no_error:
  assumes ok: "\<And>nd. nd \<in> set nodes \<Longrightarrow>
                 wellTyped (qset nd) \<and> set (references (qset nd)) \<subseteq> node ` set nodes"
  shows "(nd \<in> set nodes \<longrightarrow> generateNode k nodes nd st \<noteq> Some (Inl e)) \<and>
         (wellTyped qs \<longrightarrow> set (references qs) \<subseteq> node ` set nodes \<longrightarrow>
            generateQuorumset k nodes qs entry st \<noteq> Some (Inl e))"
proof (induction k arbitrary: nd st qs entry)
  case 0
  show ?case by simp
next
  case (Suc k)
  have IH1: "generateNode k nodes nd st \<noteq> Some (Inl e)" if "nd \<in> set nodes" for nd st
    using Suc.IH that by blast
  have IH2: "generateQuorumset k nodes qs entry st \<noteq> Some (Inl e)"
    if "wellTyped qs" "set (references qs) \<subseteq> node ` set nodes" for qs entry st
    using Suc.IH that by blast
  have A: "generateNode (Suc k) nodes nd st \<noteq> Some (Inl e)" if nd: "nd \<in> set nodes"
  proof (cases "map_of (snd st) (node nd)")
    case None
    from ok[OF nd] have "generateQuorumset k nodes (qset nd) (length (fst st)) (allocate nd st)
        \<noteq> Some (Inl e)" by (intro IH2) simp_all
    with None show ?thesis
      by (cases "generateQuorumset k nodes (qset nd) (length (fst st)) (allocate nd st)")
         (auto simp: generateNode_Suc split: sum.splits)
  next
    case (Some a)
    then show ?thesis by (simp add: generateNode_Suc)
  qed
  have B: "generateQuorumset (Suc k) nodes qs entry st \<noteq> Some (Inl e)"
    if w: "wellTyped qs" and r: "set (references qs) \<subseteq> node ` set nodes"
  proof
    assume ev: "generateQuorumset (Suc k) nodes qs entry st = Some (Inl e)"
    obtain t vs where qs: "qs = NetworkQuorumSet t vs" by (cases qs)
    from ev show False
    proof (cases rule: generateQuorumset_SucE)
      case nested
      from forEach_error[OF nested(2)] obtain x s' where
        x: "x \<in> set (qset_v qs)" and v: "visitNested k nodes entry x s' = Some (Inl e)" by blast
      from w nested(1) x obtain sub where sub: "x = QSet sub" "wellTyped sub"
        by (rule wellTyped_nested)
      from x sub(1) qs nested(1) have "set (references sub) \<subseteq> set (references qs)"
        by (simp add: references_nested)
      with r have "set (references sub) \<subseteq> node ` set nodes" by blast
      from IH2[OF sub(2) this] v sub(1) show False by (simp add: visitNested_def)
    next
      case names
      from forEach_error[OF names(2)] obtain x s' where
        x: "x \<in> set (qset_v qs)" and v: "visitName k nodes entry x s' = Some (Inl e)" by blast
      from names(1) qs x r have "toString x \<in> node ` set nodes" by auto
      then obtain dn where f: "find (\<lambda>n. node n = toString x) nodes = Some dn"
        by (cases "find (\<lambda>n. node n = toString x) nodes") (auto simp: find_None_iff)
      then have dn: "dn \<in> set nodes" by (auto simp: find_Some_iff)
      from v f IH1[OF dn, of s'] show False
        by (cases "generateNode k nodes dn s'") (auto simp: visitName_unfold split: sum.splits)
    qed
  qed
  from A B show ?case by blast
qed

lemma valid_input_is_built:
  assumes v: "validInput nodes" and b: "constructionBudget nodes \<le> fuel"
  shows "\<exists>str. createAnalysisStructure fuel nodes = Some (Inr str)"
proof -
  from v obtain myNode where home: "find (\<lambda>n. distance n = 0) nodes = Some myNode"
    by (auto simp: validInput_def)
  then have my: "myNode \<in> set nodes" by (auto simp: find_Some_iff)
  have ok: "wellTyped (qset nd) \<and> set (references (qset nd)) \<subseteq> node ` set nodes"
    if "nd \<in> set nodes" for nd
    using v that by (auto simp: validInput_def list_all_iff)
  have ne: "generateNode fuel nodes myNode ([], []) \<noteq> Some (Inl e)" for e
    using generate_no_error[of nodes myNode fuel "([], [])" e] ok my by blast
  have "uncached nodes [] * Suc (maxDepth nodes) \<le> length nodes * Suc (maxDepth nodes)"
    using uncached_empty by (rule mult_le_mono1)
  with b have "1 + uncached nodes (snd ([], [])) * Suc (maxDepth nodes) \<le> fuel"
    by (simp add: constructionBudget_def)
  with generate_enough_fuel[of nodes "maxDepth nodes" myNode "([], [])" fuel] my maxDepth_ge
  have "generateNode fuel nodes myNode ([], []) \<noteq> None" by blast
  then obtain y where y: "generateNode fuel nodes myNode ([], []) = Some y" by auto
  show ?thesis
  proof (cases y)
    case (Inl e)
    with y ne show ?thesis by simp
  next
    case (Inr res)
    obtain r h c where "res = (r, h, c)" by (cases res)
    with y Inr home show ?thesis by (simp add: createAnalysisStructure_def)
  qed
qed

subsection \<open>Nested requirements\<close>

text \<open>
  Claim C1, evaluated where it fails. H requires both of two inner sets, "one of A, B" and
  "C". Graph construction walks the inner sets but pushes every leaf into the one list of
  H and drops the inner thresholds: the requirement of H becomes "2 of A, B, C". With C
  failed the evaluator counts A and B as two units and finds H satisfied, so
  \<open>haltingAnalysis\<close> reports no failure case. On the requirement with the nesting kept the
  same evaluator, in the same state, counts the satisfied inner set of A and B as one unit
  and finds H not satisfied.
\<close>

theorem nested_requirement_is_flattened:
  "createAnalysisStructure 5 scenarioNested = Some (Inr nestedStructure) \<and>
   quorumSet (objects nestedStructure ! root nestedStructure) =
     AnalysisQuorumSet 2 [DepName ''A'', DepName ''B'', DepName ''C''] \<and>
   haltingAnalysis 5 scenarioNested 1 = Some (Inr []) \<and>
   map_sum id fst
     (quorumSetMeetsThreshold (entries nestedStructure)
        (quorumSet (objects nestedStructure ! root nestedStructure))
        (startPass (entries nestedStructure) 3 (objects nestedStructure))) = Inr True \<and>
   map_sum id fst
     (quorumSetMeetsThreshold (entries nestedStructure) nestedRequirement
        (startPass (entries nestedStructure) 3 (objects nestedStructure))) = Inr False"
  by code_simp

subsection \<open>Scenario B\<close>

text \<open>
  Claim C2, as the code has it. On the three nodes of Scenario B (home H with threshold 1
  over A; A and B with threshold 0 and no references), and with a budget of at least 4,
  \<open>haltingAnalysis\<close> returns exactly one failure case. Its vulnerable list is A. Its
  affected list is A followed by H: evaluating the requirement of H finds the direct
  reference A dead and appends it to \<^verbatim>\<open>deadNodes\<close> before H itself is appended. B is never
  given an analysis node, so no pass fails it and no failure case mentions it.
\<close>

theorem scenarioB_one_failure_case:
  "4 \<le> fuel \<Longrightarrow>
     haltingAnalysis fuel scenarioB 1 =
       Some (Inr [\<lparr>vulnerableNodes = [leafNode ''A'' 1],
                   affectedNodes = [leafNode ''A'' 1, homeNode 1 [QName ''A'']]\<rparr>])"
  using haltingAnalysis_fuel_mono [OF _ scenarioB_run] by simp

theorem scenarioB_one_failure_case_witness:
  "(4::nat) \<le> 6 \<and>
   haltingAnalysis 6 scenarioB 1 =
     Some (Inr [\<lparr>vulnerableNodes = [leafNode ''A'' 1],
                 affectedNodes = [leafNode ''A'' 1, homeNode 1 [QName ''A'']]\<rparr>])"
  using scenarioB_one_failure_case [of 6] by simp

theorem scenarioB_affected_counterexample:
  "haltingAnalysis 4 scenarioB 1 \<noteq>
     Some (Inr [\<lparr>vulnerableNodes = [leafNode ''A'' 1],
                 affectedNodes = [homeNode 1 [QName ''A'']]\<rparr>])"
  by code_simp

subsection \<open>One analysis node per reachable input node\<close>

text \<open>
  Claim C3, as the code has it. On a valid input \<open>createAnalysisStructure\<close> returns a
  structure as soon as its budget reaches \<open>constructionBudget\<close>. When the input identifiers
  are distinct and it returns a structure, the entries have pairwise different names,
  and the names are exactly the identifiers reachable from the home node through quorum
  references: every reachable input node has its entry and no other node has one. The
  network object of an entry is the input node of that name. An input node that no
  reachable node references, like B in Scenario B, gets no entry: the graph is built from
  the home node by following references.
\<close>

theorem entries_are_the_reachable_nodes:
  "(validInput nodes \<longrightarrow> constructionBudget nodes \<le> fuel \<longrightarrow>
      (\<exists>built. createAnalysisStructure fuel nodes = Some (Inr built))) \<and>
   (distinct (map node nodes) \<longrightarrow> createAnalysisStructure fuel nodes = Some (Inr str) \<longrightarrow>
      distinct (entryNames str) \<and> set (entryNames str) = reachable nodes \<and>
      set (entryObjects str) \<subseteq> set nodes \<and> map node (entryObjects str) = entryNames str)"
proof (intro conjI impI)
  assume "validInput nodes" "constructionBudget nodes \<le> fuel"
  then show "\<exists>built. createAnalysisStructure fuel nodes = Some (Inr built)"
    by (rule valid_input_is_built)
next
  assume ids: "distinct (map node nodes)"
    and run: "createAnalysisStructure fuel nodes = Some (Inr str)"
  note res = construction_result[OF ids run]
  have n: "entryNames str = map name (objects str)"
    unfolding entryNames_def res(1) by (rule nth_equalityI) simp_all
  have ob: "entryObjects str = map networkObject (objects str)"
    unfolding entryObjects_def res(1) by (rule nth_equalityI) simp_all
  show "distinct (entryNames str)" unfolding n by (rule res(2))
  show "set (entryNames str) = reachable nodes" unfolding n using res(3) by simp
  show "set (entryObjects str) \<subseteq> set nodes"
  proof
    fix x assume "x \<in> set (entryObjects str)"
    then obtain m where "m \<in> set (objects str)" "x = networkObject m" unfolding ob by auto
    with res(4)[of m] show "x \<in> set nodes" by simp
  qed
  show "map node (entryObjects str) = entryNames str"
    unfolding n ob using res(4) by (simp add: comp_def)
qed

theorem entries_are_the_reachable_nodes_witness:
  "validInput scenarioB \<and> constructionBudget scenarioB \<le> 7 \<and>
   distinct (map node scenarioB) \<and>
   createAnalysisStructure 7 scenarioB = Some (Inr structureB) \<and>
   entryNames structureB = [''H'', ''A''] \<and>
   reachable scenarioB = {''H'', ''A''} \<and>
   entryObjects structureB = [homeNode 1 [QName ''A''], leafNode ''A'' 1]"
proof -
  have v: "validInput scenarioB" and b: "constructionBudget scenarioB \<le> 7" by code_simp+
  have d: "distinct (map node scenarioB)" by (simp add: scenarioB_names)
  have run: "createAnalysisStructure 7 scenarioB = Some (Inr structureB)"
    by (rule createAnalysisStructure_fuel_mono[OF _ scenarioB_structure]) simp
  note inst = entries_are_the_reachable_nodes [of scenarioB 7 structureB]
  from inst v b have "\<exists>built. createAnalysisStructure 7 scenarioB = Some (Inr built)" by blast
  from inst d run have "reachable scenarioB = set (entryNames structureB)" by simp
  also have "\<dots> = {''H'', ''A''}" by (simp only: scenarioB_names list.set)
  finally show ?thesis using v b d run scenarioB_names by simp
qed

theorem unreachable_node_omitted_counterexample:
  "createAnalysisStructure 4 scenarioB = Some (Inr structureB) \<and>
   map node scenarioB = [''H'', ''A'', ''B''] \<and>
   entryNames structureB = [''H'', ''A''] \<and>
   ''B'' \<notin> set (entryNames structureB)"
  by (simp add: scenarioB_structure scenarioB_names)

subsection \<open>The home node\<close>

text \<open>
  Claim C4, as the code has it. Graph construction, and \<open>haltingAnalysis\<close> with fault-set
  size 1, fail with the error "no node with distance 0" exactly when no input node has
  distance 0. More than one node with distance 0 is not an error: \<^verbatim>\<open>nodes.find\<close> takes the
  first of them as the home node.
\<close>

theorem no_home_node_is_the_configuration_error:
  "(createAnalysisStructure fuel nodes = Some (Inl NoHomeNode)) =
     (\<forall>n\<in>set nodes. distance n \<noteq> 0) \<and>
   (haltingAnalysis fuel nodes 1 = Some (Inl NoHomeNode)) =
     (\<forall>n\<in>set nodes. distance n \<noteq> 0)"
proof -
  have "(haltingAnalysis fuel nodes 1 = Some (Inl NoHomeNode)) =
          (createAnalysisStructure fuel nodes = Some (Inl NoHomeNode))"
    by (auto simp: haltingAnalysis_def split: option.splits sum.splits
             dest!: forEach_error dest: haltingPass_errors)
  then show ?thesis using createAnalysisStructure_NoHomeNode by simp
qed

theorem no_home_node_is_the_configuration_error_witness:
  "distance (leafNode ''A'' 1) \<noteq> 0 \<and> distance (leafNode ''B'' 2) \<noteq> 0 \<and>
   createAnalysisStructure 0 [leafNode ''A'' 1, leafNode ''B'' 2] = Some (Inl NoHomeNode) \<and>
   haltingAnalysis 0 [leafNode ''A'' 1, leafNode ''B'' 2] 1 = Some (Inl NoHomeNode)"
  using no_home_node_is_the_configuration_error [of 0 "[leafNode ''A'' 1, leafNode ''B'' 2]"]
  by (simp add: leafNode_def)

theorem two_home_nodes_counterexample:
  "length (filter (\<lambda>n. distance n = 0) [leafNode ''A'' 0, leafNode ''B'' 0]) \<noteq> 1 \<and>
   createAnalysisStructure 2 [leafNode ''A'' 0, leafNode ''B'' 0] =
     Some (Inr \<lparr>root = 0, entries = [0],
                objects = [\<lparr>name = ''A'', live = True, quorumSet = AnalysisQuorumSet 0 [],
                            dependentsNames = [], networkObject = leafNode ''A'' 0\<rparr>]\<rparr>) \<and>
   haltingAnalysis 2 [leafNode ''A'' 0, leafNode ''B'' 0] 1 = Some (Inr [])"
  by code_simp

subsection \<open>Lists of names and lists of nested sets\<close>

text \<open>
  Claim C5, as the code has it. When every entry list of every input node is homogeneous
  (names only, or nested sets only), graph construction raises no \<^verbatim>\<open>TypeError\<close> and is the
  construction that looks at each entry's own variant: every name creates the forward and
  the backward edge, every nested set is walked. The source decides by the first element
  of a list alone; the two inputs of the counterexample mix a name and a nested set in
  one list, and on them it throws where the construction by variant does not.
\<close>

theorem homogeneous_lists_are_classified_by_variant:
  assumes "list_all (\<lambda>nd. wellTyped (qset nd)) nodes"
  shows "createAnalysisStructure fuel nodes = createAnalysisStructureTagged fuel nodes \<and>
         createAnalysisStructure fuel nodes \<noteq> Some (Inl TypeError)"
proof -
  have eq: "createAnalysisStructure fuel nodes = createAnalysisStructureTagged fuel nodes"
  proof (cases "find (\<lambda>n. distance n = 0) nodes")
    case None
    then show ?thesis by (simp add: createAnalysisStructure_def createAnalysisStructureTagged_def)
  next
    case (Some myNode)
    then have "myNode \<in> set nodes" by (auto simp: find_Some_iff)
    moreover have "\<And>nd. nd \<in> set nodes \<Longrightarrow> wellTyped (qset nd)"
      using assms by (simp add: list_all_iff)
    ultimately have "generateNode fuel nodes myNode ([], []) =
                     generateNodeTagged fuel nodes myNode ([], [])"
      using tagged_refines[of nodes myNode fuel "([], [])"] by blast
    with Some show ?thesis
      by (simp add: createAnalysisStructure_def createAnalysisStructureTagged_def)
  qed
  have "createAnalysisStructureTagged fuel nodes \<noteq> Some (Inl TypeError)"
  proof (cases "find (\<lambda>n. distance n = 0) nodes")
    case None
    then show ?thesis by (simp add: createAnalysisStructureTagged_def)
  next
    case (Some myNode)
    with tagged_no_TypeError[of fuel nodes myNode "([], [])"] show ?thesis
      by (cases "generateNodeTagged fuel nodes myNode ([], [])")
         (auto simp: createAnalysisStructureTagged_def split: sum.splits)
  qed
  with eq show ?thesis by simp
qed

theorem homogeneous_lists_are_classified_by_variant_witness:
  "list_all (\<lambda>nd. wellTyped (qset nd)) scenarioNested \<and>
   createAnalysisStructure 5 scenarioNested = createAnalysisStructureTagged 5 scenarioNested \<and>
   createAnalysisStructureTagged 5 scenarioNested = Some (Inr nestedStructure) \<and>
   createAnalysisStructure 5 scenarioNested \<noteq> Some (Inl TypeError)"
proof -
  have h: "list_all (\<lambda>nd. wellTyped (qset nd)) scenarioNested" by code_simp
  have r: "createAnalysisStructure 5 scenarioNested = Some (Inr nestedStructure)" by code_simp
  note inst = homogeneous_lists_are_classified_by_variant [OF h, of 5]
  from inst r have t: "createAnalysisStructureTagged 5 scenarioNested = Some (Inr nestedStructure)"
    by simp
  from inst have "createAnalysisStructure 5 scenarioNested \<noteq> Some (Inl TypeError)" by blast
  with inst h t show ?thesis by blast
qed

theorem mixed_lists_counterexample:
  "createAnalysisStructure 5 mixedSetFirst = Some (Inl TypeError) \<and>
   createAnalysisStructure 5 mixedNameFirst = Some (Inl (BadNetworkGraph ''[object Object]'')) \<and>
   createAnalysisStructureTagged 5 mixedSetFirst \<noteq> Some (Inl TypeError) \<and>
   createAnalysisStructureTagged 5 mixedNameFirst \<noteq> Some (Inl (BadNetworkGraph ''[object Object]''))"
  by code_simp

subsection \<open>Scenario A\<close>

text \<open>
  Claim C6. On the four nodes of Scenario A (home H with threshold 2 over A, B, C, each of
  which has threshold 0 and no references), and with a budget of at least 4,
  \<open>haltingAnalysis\<close> returns the empty list of failure cases, and it does so because each
  of the three passes leaves H satisfied: the graph has the four analysis nodes, and in
  the pass for A, for B and for C, run one after the other on the store the pass before
  left, the candidate is marked dead, the requirement of H is evaluated and met by the
  two nodes that remain live, H stays live, and no failure case is recorded.
\<close>

theorem scenarioA_no_failure_case:
  assumes "4 \<le> fuel"
  shows "haltingAnalysis fuel scenarioA 1 = Some (Inr []) \<and>
         createAnalysisStructure fuel scenarioA = Some (Inr structureA) \<and>
         passSparesHome fuel 1 (objects structureA) \<and>
         passSparesHome fuel 2 (heap (passEndA 1)) \<and>
         passSparesHome fuel 3 (heap (passEndA 2))"
proof -
  from assms have one: "1 \<le> fuel" by simp
  have "haltingAnalysis fuel scenarioA 1 = Some (Inr [])"
    by (rule haltingAnalysis_fuel_mono[OF assms scenarioA_run])
  moreover have "createAnalysisStructure fuel scenarioA = Some (Inr structureA)"
    by (rule createAnalysisStructure_fuel_mono[OF assms scenarioA_structure])
  moreover note scenarioA_passes[THEN passSparesHome_fuel_mono[OF one]]
  ultimately show ?thesis by simp
qed

theorem scenarioA_no_failure_case_witness:
  "(4::nat) \<le> 9 \<and> haltingAnalysis 9 scenarioA 1 = Some (Inr []) \<and>
   createAnalysisStructure 9 scenarioA = Some (Inr structureA) \<and>
   passSparesHome 9 1 (objects structureA) \<and>
   passSparesHome 9 2 (heap (passEndA 1)) \<and>
   passSparesHome 9 3 (heap (passEndA 2)) \<and>
   map live (heap (passEndA 1)) = [True, False, True, True] \<and>
   map live (heap (passEndA 2)) = [True, True, False, True] \<and>
   map live (heap (passEndA 3)) = [True, True, True, False]"
  using scenarioA_no_failure_case [of 9] scenarioA_ends by simp

subsection \<open>The fault-set size\<close>

text \<open>
  Claim C7. For every input and every fault-set size other than 1, \<open>haltingAnalysis\<close>
  fails with the unsupported-configuration error. It does so whatever the budget, even
  none: the test comes before the graph is built, and an error carries no list of
  failure cases.
\<close>

theorem unsupported_fault_set_size:
  "numberOfNodesToTest \<noteq> 1 \<Longrightarrow>
     haltingAnalysis fuel nodes numberOfNodesToTest = Some (Inl UnsupportedOrder)"
  by (simp add: haltingAnalysis_def)

theorem unsupported_fault_set_size_witness:
  "(2::int) \<noteq> 1 \<and> haltingAnalysis 0 scenarioA 2 = Some (Inl UnsupportedOrder)"
  using unsupported_fault_set_size [of 2 0 scenarioA] by simp

subsection \<open>Termination of graph construction\<close>

text \<open>
  Claim C8. For every input, with or without cycles among the quorum references,
  \<open>createAnalysisStructure\<close> returns (a structure or an error) as soon as its budget reaches
  \<open>constructionBudget\<close>, a number computed from the input alone. The reason is the one the
  claim gives: a node is in \<^verbatim>\<open>entryCache\<close> before its quorum set is walked, so every call of
  \<open>generateNode\<close> that goes on to recurse makes the set of input names not yet in the
  cache smaller.
\<close>

theorem construction_terminates:
  assumes "constructionBudget nodes \<le> fuel"
  shows "\<exists>r. createAnalysisStructure fuel nodes = Some r"
proof (cases "find (\<lambda>n. distance n = 0) nodes")
  case None
  then show ?thesis by (simp add: createAnalysisStructure_def)
next
  case (Some myNode)
  then have my: "myNode \<in> set nodes" by (auto simp: find_Some_iff)
  have "uncached nodes [] * Suc (maxDepth nodes) \<le> length nodes * Suc (maxDepth nodes)"
    using uncached_empty by (rule mult_le_mono1)
  with assms have "1 + uncached nodes (snd ([], [])) * Suc (maxDepth nodes) \<le> fuel"
    by (simp add: constructionBudget_def)
  with generate_enough_fuel[of nodes "maxDepth nodes" myNode "([], [])" fuel] my maxDepth_ge
  have "generateNode fuel nodes myNode ([], []) \<noteq> None" by blast
  with Some show ?thesis
    by (auto simp: createAnalysisStructure_def split: option.splits sum.splits)
qed

theorem construction_terminates_witness:
  "constructionBudget scenarioCycle \<le> 5 \<and>
   (\<exists>r. createAnalysisStructure 5 scenarioCycle = Some r) \<and>
   createAnalysisStructure 5 scenarioCycle = Some (Inr cycleStructure)"
proof -
  have h: "constructionBudget scenarioCycle \<le> 5" by code_simp
  from construction_terminates [OF h] h scenarioCycle_run show ?thesis by simp
qed

subsection \<open>Liveness never comes back within a pass\<close>

text \<open>
  Claim C9. Within a pass, after \<^verbatim>\<open>reset\<close>, no step sets a \<^verbatim>\<open>live\<close> flag back to true:
  marking the candidate dead, evaluating a requirement, marking a dependent dead, and a
  whole call of \<open>checkDependents\<close> (so each of its recursive calls too) leave every object
  that was dead before the step dead after it, and keep the store the same size. Hence the
  store at the end of the cascade has no live object that is not live right after \<^verbatim>\<open>reset\<close>.
\<close>

theorem liveness_never_restored:
  "noRevival (reset ans h) (heap (startPass ans nodeToHalt h)) \<and>
   (quorumSetMeetsThreshold ans q s = Inr (ok, s1) \<longrightarrow> noRevival (heap s) (heap s1)) \<and>
   noRevival (heap s) (heap (markDead dependentNode s)) \<and>
   (checkDependents fuel ans deadNode s = Some (Inr s2) \<longrightarrow> noRevival (heap s) (heap s2)) \<and>
   (checkDependents fuel ans nodeToHalt (startPass ans nodeToHalt h) = Some (Inr s3) \<longrightarrow>
      noRevival (reset ans h) (heap s3))"
proof -
  have start: "noRevival (reset ans h) (heap (startPass ans nodeToHalt h))"
    by (simp add: startPass_def Let_def noRevival_kill)
  have eval: "noRevival (heap s) (heap s1)" if "quorumSetMeetsThreshold ans q s = Inr (ok, s1)"
    using quorumSetMeetsThreshold_heap[OF that] by (simp add: noRevival_refl)
  have whole: "noRevival (reset ans h) (heap s3)"
    if "checkDependents fuel ans nodeToHalt (startPass ans nodeToHalt h) = Some (Inr s3)"
    using start checkDependents_noRevival[OF that] by (rule noRevival_trans)
  from start eval whole show ?thesis
    by (simp add: noRevival_markDead checkDependents_noRevival)
qed

theorem liveness_never_restored_witness:
  "checkDependents 2 [0, 1] 1 (startPass [0, 1] 1 (objects cycleStructure)) = Some (Inr cyclePassEnd) \<and>
   noRevival (reset [0, 1] (objects cycleStructure)) (heap cyclePassEnd) \<and>
   noRevival (heap (startPass [0, 1] 1 (objects cycleStructure))) (heap cyclePassEnd)"
  using liveness_never_restored [of "[0, 1]" "objects cycleStructure" 1 mixedRequirement
      "startPass [0, 1] 1 (objects cycleStructure)" True cyclePassEnd 0 2 1 cyclePassEnd cyclePassEnd]
    cyclePass_run
  by simp

subsection \<open>The evaluator reads liveness and writes the casualty list only\<close>

text \<open>
  Claim C10. For every requirement and every state, \<open>quorumSetMeetsThreshold\<close> returns the
  store it was given: no \<^verbatim>\<open>live\<close> flag, and nothing else of any node, is changed. The only
  effect is that the network objects of the dead direct references are appended to
  \<^verbatim>\<open>deadNodes\<close>, in the order of the walk. The boolean is \<open>satisfied\<close>, a function of the
  requirement (its threshold and entries) and of the liveness of the names alone. When a
  name of the requirement is the name of no analysis node the source throws
  (\<^verbatim>\<open>TypeError\<close>) and there is no result.
\<close>

theorem evaluator_changes_only_the_casualty_list:
  "quorumSetMeetsThreshold ans q s =
     (if resolvable ans (heap s) (depNames q)
      then Inr (satisfied (liveness ans (heap s)) q,
                \<lparr>heap = heap s,
                 deadNodes = deadNodes s @ casualties ans (heap s) (depNames q)\<rparr>)
      else Inl TypeError)"
  by (simp add: quorumSetMeetsThreshold_char(1))

theorem evaluator_changes_only_the_casualty_list_witness:
  "quorumSetMeetsThreshold [0, 1] mixedRequirement (startPass [0, 1] 1 (objects cycleStructure)) =
     Inr (True, \<lparr>heap = heap (startPass [0, 1] 1 (objects cycleStructure)),
                 deadNodes = [cycleB]\<rparr>)"
  using evaluator_changes_only_the_casualty_list
      [of "[0, 1]" mixedRequirement "startPass [0, 1] 1 (objects cycleStructure)"]
    mixedRequirement_run
  by simp

end
